theory Spec2Isabelle
  imports Main "HOL-Library.Multiset" "HOL-Library.Char_ord" "HOL-Library.List_Lexorder"
begin

section \<open>The token record and its code generation (token.go)\<close>

text \<open>
  \<^verbatim>\<open>type token struct { Code, Icon, Name, Secret string; Digits, Period int }\<close>

  Go's \<^verbatim>\<open>int\<close> is taken as 64 bits wide; the fields hold values of that range
  (they come from \<^verbatim>\<open>strconv.Atoi\<close>), and the two conversions of \<^verbatim>\<open>GenerateCode\<close>
  have their wrap-around written out. Strings are byte lists.
\<close>

record token =
  Code :: string
  Icon :: string
  Name :: string
  Secret :: string
  Digits :: int
  Period :: int

datatype error = Error string

datatype algorithm = AlgorithmSHA1

text \<open>\<^verbatim>\<open>totp.ValidateOpts\<close>; \<^verbatim>\<open>Period\<close> and \<^verbatim>\<open>Skew\<close> are \<^verbatim>\<open>uint\<close>.\<close>

record ValidateOpts =
  opts_Period :: nat
  opts_Skew :: nat
  opts_Digits :: int
  opts_Algorithm :: algorithm

text \<open>A point of time is a number of nanoseconds; \<^verbatim>\<open>time.Second\<close> is \<open>10^9\<close>.\<close>

type_synonym time = int

definition time_Second :: int where
  "time_Second = 1000000000"

text \<open>The conversion \<^verbatim>\<open>uint(x)\<close> of a 64-bit \<^verbatim>\<open>int\<close>.\<close>

definition uint_of_int :: "int \<Rightarrow> nat" where
  "uint_of_int x = nat (x mod 2 ^ 64)"

text \<open>The value of a 64-bit signed product: \<^verbatim>\<open>time.Duration(p) * time.Second\<close> wraps.\<close>

definition wrap_int64 :: "int \<Rightarrow> int" where
  "wrap_int64 x = (x + 2 ^ 63) mod 2 ^ 64 - 2 ^ 63"

subsection \<open>\<^verbatim>\<open>strings.ToUpper\<close> and \<^verbatim>\<open>strings.ToLower\<close>\<close>

text \<open>
  On a string of ASCII bytes both functions map the bytes one by one; on any other string
  they go through the Unicode tables (\<^verbatim>\<open>strings.Map\<close>), which are a parameter here.
\<close>

definition isASCII :: "string \<Rightarrow> bool" where
  "isASCII s = list_all (\<lambda>c. (of_char c :: nat) < 128) s"

definition upper_byte :: "char \<Rightarrow> char" where
  "upper_byte c = (let n = (of_char c :: nat) in if 97 \<le> n \<and> n \<le> 122 then char_of (n - 32) else c)"

definition lower_byte :: "char \<Rightarrow> char" where
  "lower_byte c = (let n = (of_char c :: nat) in if 65 \<le> n \<and> n \<le> 90 then char_of (n + 32) else c)"

definition ToUpper :: "(string \<Rightarrow> string) \<Rightarrow> string \<Rightarrow> string" where
  "ToUpper unicode_upper s = (if isASCII s then map upper_byte s else unicode_upper s)"

definition ToLower :: "(string \<Rightarrow> string) \<Rightarrow> string \<Rightarrow> string" where
  "ToLower unicode_lower s = (if isASCII s then map lower_byte s else unicode_lower s)"

subsection \<open>\<^verbatim>\<open>GenerateCode\<close>\<close>

text \<open>
  The one-time-password engine \<^verbatim>\<open>totp.GenerateCodeCustom(secret, t, opts)\<close> is an
  external collaborator: a parameter returning the pair \<^verbatim>\<open>(passcode, err)\<close>.
  \<^verbatim>\<open>time.Now()\<close> is the parameter \<open>now\<close>. The method assigns the returned passcode to
  \<^verbatim>\<open>t.Code\<close> whether or not an error comes with it, and returns the error.
\<close>

type_synonym generator = "string \<Rightarrow> time \<Rightarrow> ValidateOpts \<Rightarrow> string \<times> error option"

definition GenerateCode ::
  "generator \<Rightarrow> (string \<Rightarrow> string) \<Rightarrow> time \<Rightarrow> bool \<Rightarrow> token \<Rightarrow> token \<times> error option" where
  "GenerateCode gen unicode_upper now next t =
    (let secret = Secret t;
         n = length secret mod 8;
         secret = (if n \<noteq> 0 then secret @ replicate (8 - n) CHR ''='' else secret);
         opts = \<lparr>opts_Period = 30, opts_Skew = 1, opts_Digits = 6, opts_Algorithm = AlgorithmSHA1\<rparr>;
         opts = (if Digits t \<noteq> 0 then opts\<lparr>opts_Digits := Digits t\<rparr> else opts);
         opts = (if Period t \<noteq> 0 then opts\<lparr>opts_Period := uint_of_int (Period t)\<rparr> else opts);
         pointOfTime = now;
         pointOfTime = (if next then pointOfTime + wrap_int64 (Period t * time_Second) else pointOfTime);
         (code, err) = gen (ToUpper unicode_upper secret) pointOfTime opts
     in (t\<lparr>Code := code\<rparr>, err))"

subsection \<open>The sorter interface \<^verbatim>\<open>tokenList\<close>\<close>

text \<open>
  \<^verbatim>\<open>Less(i, j) = strings.ToLower(t[i].Name) < strings.ToLower(t[j].Name)\<close>; Go compares
  strings byte by byte, a proper prefix being smaller.
\<close>

definition Less :: "(string \<Rightarrow> string) \<Rightarrow> token \<Rightarrow> token \<Rightarrow> bool" where
  "Less unicode_lower a b = (ToLower unicode_lower (Name a) < ToLower unicode_lower (Name b))"

section \<open>The remote store and the other collaborators\<close>

text \<open>
  A value of Go's \<^verbatim>\<open>interface{}\<close> is a string or something else; the type assertion
  \<^verbatim>\<open>v.(string)\<close> panics on the latter.
\<close>

datatype val = VString string | VOther

text \<open>\<^verbatim>\<open>s.Data["keys"]\<close>: nil (also when the map is nil), a list, or something that is no list.\<close>

datatype keys_field = KeysNil | KeysList "val list" | KeysOther

text \<open>The results \<^verbatim>\<open>(s, err)\<close> of \<^verbatim>\<open>client.Logical().List(key)\<close> and of \<^verbatim>\<open>Read(k)\<close>.\<close>

datatype list_resp = ListErr error | ListNil | ListSecret keys_field

text \<open>
  \<^verbatim>\<open>ReadNil\<close> is \<^verbatim>\<open>(nil, nil)\<close>; \<^verbatim>\<open>ReadSecret None\<close> is a secret whose \<^verbatim>\<open>Data\<close> is nil.
  The fields of a secret come in the order in which \<^verbatim>\<open>range\<close> iterates over the map.
\<close>

datatype read_resp = ReadErr error | ReadNil | ReadSecret "(string \<times> val) list option"

record env =
  cfg_Vault_Prefix :: string
  cfg_Vault_SecretField :: string
  api_NewClient :: "error option"
  vault_List :: "string \<Rightarrow> list_resp"
  vault_Read :: "string \<Rightarrow> read_resp"
  totp_GenerateCodeCustom :: generator
  strconv_Atoi :: "string \<Rightarrow> int \<times> error option"
  path_Join :: "string \<Rightarrow> string \<Rightarrow> string"
  unicode_ToUpper :: "string \<Rightarrow> string"
  unicode_ToLower :: "string \<Rightarrow> string"
  sort_Sort :: "(token \<Rightarrow> token \<Rightarrow> bool) \<Rightarrow> token list \<Rightarrow> token list"

definition HasSuffix :: "string \<Rightarrow> string \<Rightarrow> bool" where
  "HasSuffix s suffix = (length suffix \<le> length s \<and> drop (length s - length suffix) s = suffix)"

definition TrimRight :: "string \<Rightarrow> string \<Rightarrow> string" where
  "TrimRight s cutset = rev (dropWhile (\<lambda>c. List.member cutset c) (rev s))"

section \<open>The body of \<^verbatim>\<open>fetchTokenFromKey\<close>\<close>

text \<open>
  One round of the \<^verbatim>\<open>switch\<close> inside the loop over the fields; the cases are tried in
  the order of the source. \<open>None\<close> is the panic of a failed type assertion. The error of
  \<^verbatim>\<open>strconv.Atoi\<close> is only logged, the returned number is stored.
\<close>

definition asString :: "val \<Rightarrow> string option" where
  "asString v = (case v of VString s \<Rightarrow> Some s | VOther \<Rightarrow> None)"

definition field_case :: "env \<Rightarrow> string \<times> val \<Rightarrow> token \<Rightarrow> token option" where
  "field_case E kv tok =
    (let k = fst kv; v = snd kv in
     if k = cfg_Vault_SecretField E then map_option (\<lambda>x. tok\<lparr>Secret := x\<rparr>) (asString v)
     else if k = ''code'' then map_option (\<lambda>x. tok\<lparr>Code := x\<rparr>) (asString v)
     else if k = ''name'' then map_option (\<lambda>x. tok\<lparr>Name := x\<rparr>) (asString v)
     else if k = ''account_name'' then map_option (\<lambda>x. tok\<lparr>Name := x\<rparr>) (asString v)
     else if k = ''icon'' then map_option (\<lambda>x. tok\<lparr>Icon := x\<rparr>) (asString v)
     else if k = ''digits'' then map_option (\<lambda>x. tok\<lparr>Digits := fst (strconv_Atoi E x)\<rparr>) (asString v)
     else if k = ''period'' then map_option (\<lambda>x. tok\<lparr>Period := fst (strconv_Atoi E x)\<rparr>) (asString v)
     else Some tok)"

fun field_loop :: "env \<Rightarrow> (string \<times> val) list \<Rightarrow> token \<Rightarrow> token option" where
  "field_loop E [] tok = Some tok"
| "field_loop E (kv # kvs) tok =
     (case field_case E kv tok of None \<Rightarrow> None | Some tok' \<Rightarrow> field_loop E kvs tok')"

text \<open>The ways in which the process can die.\<close>

datatype panic_reason = NegativeCounter | ClosedChannel | TypeAssertion | NilDereference

datatype fetch_outcome = FetchPanic panic_reason | FetchNothing | FetchDeliver token

text \<open>
  Everything \<^verbatim>\<open>fetchTokenFromKey\<close> does before it touches the counter or the channel:
  the read, the nil checks, the field loop, \<^verbatim>\<open>GenerateCode\<close> at the clock reading
  \<open>now\<close>, and the test for an empty code.
\<close>

definition fetch_body :: "env \<Rightarrow> bool \<Rightarrow> time \<Rightarrow> string \<Rightarrow> fetch_outcome" where
  "fetch_body E next now k =
    (case vault_Read E k of
       ReadErr e \<Rightarrow> FetchNothing
     | ReadNil \<Rightarrow> FetchPanic NilDereference
     | ReadSecret None \<Rightarrow> FetchNothing
     | ReadSecret (Some d) \<Rightarrow>
        (case field_loop E d \<lparr>Code = [], Icon = ''key'', Name = k, Secret = [], Digits = 0, Period = 0\<rparr> of
           None \<Rightarrow> FetchPanic TypeAssertion
         | Some tok \<Rightarrow>
            (case GenerateCode (totp_GenerateCodeCustom E) (unicode_ToUpper E) now next tok of
               (tok', Some e) \<Rightarrow> FetchNothing
             | (tok', None) \<Rightarrow> if Code tok' = [] then FetchNothing else FetchDeliver tok')))"

section \<open>The traversal of \<^verbatim>\<open>getSecretsFromVault\<close> as a transition system\<close>

text \<open>
  The goroutines of one call: the caller (\<^verbatim>\<open>getSecretsFromVault\<close> itself), the dispatcher
  (the anonymous function with the \<^verbatim>\<open>select\<close> loop) and one worker per
  \<^verbatim>\<open>go scanKeyForSubKeys\<close> and \<^verbatim>\<open>go fetchTokenFromKey\<close>. A step is one operation on
  the \<^verbatim>\<open>WaitGroup\<close> or on a channel, together with the local computation before it;
  a schedule, a list of events, says which goroutine moves next.
\<close>

datatype kind = Scan | Fetch

text \<open>
  The program points of a worker. \<^verbatim>\<open>scanKeyForSubKeys\<close>: before \<^verbatim>\<open>List\<close>; at the head of
  the \<^verbatim>\<open>range\<close> loop with the children still to come (no children left: the function
  returns and the deferred \<^verbatim>\<open>wg.Done()\<close> runs; the early returns lead there too); after
  \<^verbatim>\<open>wg.Add(1)\<close>, before the send of the joined key. \<^verbatim>\<open>fetchTokenFromKey\<close>: before
  \<^verbatim>\<open>Read\<close>; before \<^verbatim>\<open>wg.Add(1)\<close>; before the send of the token; before the deferred
  \<^verbatim>\<open>wg.Done()\<close>.
\<close>

datatype worker =
    ScanList string
  | ScanRange string "val list"
  | ScanSend string kind string "val list"
  | FetchRead string
  | FetchAdd string token
  | FetchSend string token
  | FetchDefer string
  | Finished kind string

text \<open>
  The dispatcher: not yet started, waiting in \<^verbatim>\<open>select\<close>, inside one of its three cases,
  or returned after the \<^verbatim>\<open>done\<close> case.
\<close>

datatype dispatcher =
    NotStarted
  | Select
  | GoScan string
  | GoFetch string
  | Append token
  | RespDone
  | Closed

datatype mainpc =
    Main_NewClient
  | Main_Enqueue
  | Main_Add
  | Main_Go
  | Main_Wait
  | Main_Sort
  | Main_Return
  | Main_Returned "error + token list"

datatype actor = AMain | ADispatcher | AWorker nat

text \<open>What the history of a run records; the program itself keeps no such list.\<close>

datatype action =
    WgAdd actor
  | WgDone actor
  | SendScan actor string
  | SendFetch actor string
  | SendResp actor token
  | ReadClock nat string time

record state =
  wg :: int
  scanPool :: "string list"
  keyPoolChan :: "string list"
  respChan :: "token list"
  resp :: "token list"
  workers :: "worker list"
  disp :: dispatcher
  mainpc :: mainpc
  clock :: time
  panicked :: "panic_reason option"
  history :: "action list"

datatype event =
    EvMain
  | EvSelectScan
  | EvSelectFetch
  | EvSelectResp
  | EvDisp
  | EvWorker nat
  | EvTick nat

text \<open>The three channels are made with capacity 100: a send on a full channel blocks.\<close>

definition chan_cap :: nat where
  "chan_cap = 100"

definition init :: "time \<Rightarrow> state" where
  "init t0 = \<lparr>wg = 0, scanPool = [], keyPoolChan = [], respChan = [], resp = [], workers = [],
     disp = NotStarted, mainpc = Main_NewClient, clock = t0, panicked = None, history = []\<rparr>"

definition panic :: "panic_reason \<Rightarrow> state \<Rightarrow> state option" where
  "panic r s = Some (s\<lparr>panicked := Some r\<rparr>)"

text \<open>\<^verbatim>\<open>wg.Add(1)\<close> and \<^verbatim>\<open>wg.Done()\<close>; the latter panics on a negative counter.\<close>

definition wg_Add :: "actor \<Rightarrow> state \<Rightarrow> state" where
  "wg_Add a s = s\<lparr>wg := wg s + 1, history := history s @ [WgAdd a]\<rparr>"

definition wg_Done :: "actor \<Rightarrow> state \<Rightarrow> state" where
  "wg_Done a s = s\<lparr>wg := wg s - 1, history := history s @ [WgDone a]\<rparr>"

definition set_worker :: "nat \<Rightarrow> worker \<Rightarrow> state \<Rightarrow> state" where
  "set_worker i w s = s\<lparr>workers := (workers s)[i := w]\<rparr>"

text \<open>
  The caller: \<^verbatim>\<open>api.NewClient\<close> (an error returns at once, before the \<^verbatim>\<open>defer\<close>), the
  send of the trimmed prefix to \<^verbatim>\<open>scanPool\<close>, \<^verbatim>\<open>wg.Add(1)\<close>, the start of the dispatcher,
  \<^verbatim>\<open>wg.Wait()\<close> (enabled when the counter is zero), \<^verbatim>\<open>sort.Sort\<close>, and the return, whose
  deferred send on the unbuffered \<^verbatim>\<open>done\<close> meets the dispatcher in its \<^verbatim>\<open>select\<close>.
\<close>

definition step_main :: "env \<Rightarrow> state \<Rightarrow> state option" where
  "step_main E s =
    (case mainpc s of
       Main_NewClient \<Rightarrow>
         (case api_NewClient E of
            Some e \<Rightarrow> Some (s\<lparr>mainpc := Main_Returned (Inl e)\<rparr>)
          | None \<Rightarrow> Some (s\<lparr>mainpc := Main_Enqueue\<rparr>))
     | Main_Enqueue \<Rightarrow>
         (if length (scanPool s) < chan_cap
          then Some (s\<lparr>scanPool := scanPool s @ [TrimRight (cfg_Vault_Prefix E) ''*''],
                      mainpc := Main_Add,
                      history := history s @ [SendScan AMain (TrimRight (cfg_Vault_Prefix E) ''*'')]\<rparr>)
          else None)
     | Main_Add \<Rightarrow> Some ((wg_Add AMain s)\<lparr>mainpc := Main_Go\<rparr>)
     | Main_Go \<Rightarrow> Some (s\<lparr>disp := Select, mainpc := Main_Wait\<rparr>)
     | Main_Wait \<Rightarrow> (if wg s = 0 then Some (s\<lparr>mainpc := Main_Sort\<rparr>) else None)
     | Main_Sort \<Rightarrow>
         Some (s\<lparr>resp := sort_Sort E (Less (unicode_ToLower E)) (resp s), mainpc := Main_Return\<rparr>)
     | Main_Return \<Rightarrow>
         (if disp s = Select
          then Some (s\<lparr>disp := Closed, mainpc := Main_Returned (Inr (resp s))\<rparr>)
          else None)
     | Main_Returned r \<Rightarrow> None)"

text \<open>The three receiving cases of the \<^verbatim>\<open>select\<close>.\<close>

definition step_select_scan :: "state \<Rightarrow> state option" where
  "step_select_scan s =
    (case (disp s, scanPool s) of
       (Select, key # rest) \<Rightarrow> Some (s\<lparr>scanPool := rest, disp := GoScan key\<rparr>)
     | _ \<Rightarrow> None)"

definition step_select_fetch :: "state \<Rightarrow> state option" where
  "step_select_fetch s =
    (case (disp s, keyPoolChan s) of
       (Select, key # rest) \<Rightarrow> Some (s\<lparr>keyPoolChan := rest, disp := GoFetch key\<rparr>)
     | _ \<Rightarrow> None)"

definition step_select_resp :: "state \<Rightarrow> state option" where
  "step_select_resp s =
    (case (disp s, respChan s) of
       (Select, t # rest) \<Rightarrow> Some (s\<lparr>respChan := rest, disp := Append t\<rparr>)
     | _ \<Rightarrow> None)"

text \<open>The bodies of the cases: the two \<^verbatim>\<open>go\<close> statements, the \<^verbatim>\<open>append\<close>, the \<^verbatim>\<open>wg.Done()\<close>.\<close>

definition step_disp :: "state \<Rightarrow> state option" where
  "step_disp s =
    (case disp s of
       GoScan key \<Rightarrow> Some (s\<lparr>workers := workers s @ [ScanList key], disp := Select\<rparr>)
     | GoFetch key \<Rightarrow> Some (s\<lparr>workers := workers s @ [FetchRead key], disp := Select\<rparr>)
     | Append t \<Rightarrow> Some (s\<lparr>resp := resp s @ [t], disp := RespDone\<rparr>)
     | RespDone \<Rightarrow>
         (if wg s - 1 < 0 then panic NegativeCounter s else Some ((wg_Done ADispatcher s)\<lparr>disp := Select\<rparr>))
     | _ \<Rightarrow> None)"

text \<open>A send by a worker: it blocks on a full channel and panics on a closed one.\<close>

definition send_scan :: "nat \<Rightarrow> string \<Rightarrow> worker \<Rightarrow> state \<Rightarrow> state option" where
  "send_scan i c w s =
    (if disp s = Closed then panic ClosedChannel s
     else if length (scanPool s) < chan_cap
     then Some (set_worker i w (s\<lparr>scanPool := scanPool s @ [c],
                  history := history s @ [SendScan (AWorker i) c]\<rparr>))
     else None)"

definition send_fetch :: "nat \<Rightarrow> string \<Rightarrow> worker \<Rightarrow> state \<Rightarrow> state option" where
  "send_fetch i c w s =
    (if disp s = Closed then panic ClosedChannel s
     else if length (keyPoolChan s) < chan_cap
     then Some (set_worker i w (s\<lparr>keyPoolChan := keyPoolChan s @ [c],
                  history := history s @ [SendFetch (AWorker i) c]\<rparr>))
     else None)"

definition send_resp :: "nat \<Rightarrow> token \<Rightarrow> worker \<Rightarrow> state \<Rightarrow> state option" where
  "send_resp i t w s =
    (if disp s = Closed then panic ClosedChannel s
     else if length (respChan s) < chan_cap
     then Some (set_worker i w (s\<lparr>respChan := respChan s @ [t],
                  history := history s @ [SendResp (AWorker i) t]\<rparr>))
     else None)"

definition step_worker :: "env \<Rightarrow> bool \<Rightarrow> nat \<Rightarrow> state \<Rightarrow> state option" where
  "step_worker E next i s =
    (if i < length (workers s) then
      (case workers s ! i of
         ScanList key \<Rightarrow>
           (case vault_List E key of
              ListErr e \<Rightarrow> Some (set_worker i (ScanRange key []) s)
            | ListNil \<Rightarrow> Some (set_worker i (ScanRange key []) s)
            | ListSecret KeysNil \<Rightarrow> Some (set_worker i (ScanRange key []) s)
            | ListSecret KeysOther \<Rightarrow> panic TypeAssertion s
            | ListSecret (KeysList sks) \<Rightarrow> Some (set_worker i (ScanRange key sks) s))
       | ScanRange key [] \<Rightarrow>
           (if wg s - 1 < 0 then panic NegativeCounter s
            else Some (set_worker i (Finished Scan key) (wg_Done (AWorker i) s)))
       | ScanRange key (sk # rest) \<Rightarrow>
           (case sk of
              VOther \<Rightarrow> panic TypeAssertion s
            | VString sks \<Rightarrow>
                Some (set_worker i
                  (ScanSend key (if HasSuffix sks ''/'' then Scan else Fetch) (path_Join E key sks) rest)
                  (wg_Add (AWorker i) s)))
       | ScanSend key kd c rest \<Rightarrow>
           (case kd of
              Scan \<Rightarrow> send_scan i c (ScanRange key rest) s
            | Fetch \<Rightarrow> send_fetch i c (ScanRange key rest) s)
       | FetchRead k \<Rightarrow>
           (case fetch_body E next (clock s) k of
              FetchPanic r \<Rightarrow> panic r s
            | FetchNothing \<Rightarrow>
                Some (set_worker i (FetchDefer k) (s\<lparr>history := history s @ [ReadClock i k (clock s)]\<rparr>))
            | FetchDeliver tok \<Rightarrow>
                Some (set_worker i (FetchAdd k tok) (s\<lparr>history := history s @ [ReadClock i k (clock s)]\<rparr>)))
       | FetchAdd k tok \<Rightarrow> Some (set_worker i (FetchSend k tok) (wg_Add (AWorker i) s))
       | FetchSend k tok \<Rightarrow> send_resp i tok (FetchDefer k) s
       | FetchDefer k \<Rightarrow>
           (if wg s - 1 < 0 then panic NegativeCounter s
            else Some (set_worker i (Finished Fetch k) (wg_Done (AWorker i) s)))
       | Finished kd k \<Rightarrow> None)
     else None)"

text \<open>A panic ends the process: nothing moves afterwards. The clock only moves forward.\<close>

definition step :: "env \<Rightarrow> bool \<Rightarrow> event \<Rightarrow> state \<Rightarrow> state option" where
  "step E next ev s =
    (if panicked s \<noteq> None then None
     else case ev of
       EvMain \<Rightarrow> step_main E s
     | EvSelectScan \<Rightarrow> step_select_scan s
     | EvSelectFetch \<Rightarrow> step_select_fetch s
     | EvSelectResp \<Rightarrow> step_select_resp s
     | EvDisp \<Rightarrow> step_disp s
     | EvWorker i \<Rightarrow> step_worker E next i s
     | EvTick d \<Rightarrow> Some (s\<lparr>clock := clock s + int d\<rparr>))"

fun exec :: "env \<Rightarrow> bool \<Rightarrow> event list \<Rightarrow> state \<Rightarrow> state option" where
  "exec E next [] s = Some s"
| "exec E next (ev # evs) s =
     (case step E next ev s of None \<Rightarrow> None | Some s' \<Rightarrow> exec E next evs s')"

text \<open>
  What a run of \<^verbatim>\<open>getSecretsFromVault(tok, next)\<close> under a schedule has returned, if it
  has returned. The access token \<^verbatim>\<open>tok\<close> only goes to \<^verbatim>\<open>client.SetToken\<close>.
\<close>

definition getSecretsFromVault ::
  "env \<Rightarrow> bool \<Rightarrow> time \<Rightarrow> event list \<Rightarrow> (error + token list) option" where
  "getSecretsFromVault E next t0 sched =
    (case exec E next sched (init t0) of
       None \<Rightarrow> None
     | Some s \<Rightarrow> (case mainpc s of Main_Returned r \<Rightarrow> Some r | _ \<Rightarrow> None))"

section \<open>Concrete collaborators for test runs\<close>

text \<open>
  \<^verbatim>\<open>sort.Sort\<close> of the Go library up to version 1.18 on a slice of at most twelve elements
  (the tail of \<^verbatim>\<open>quickSort\<close>): one pass of Shell sort with gap 6, then \<^verbatim>\<open>insertionSort\<close>.
  Later versions call \<^verbatim>\<open>insertionSort\<close> alone on such a slice; the two agree below seven
  elements, where the first pass does nothing. Both work through \<^verbatim>\<open>Less\<close> and \<^verbatim>\<open>Swap\<close>.
\<close>

definition Swap :: "nat \<Rightarrow> nat \<Rightarrow> 'a list \<Rightarrow> 'a list" where
  "Swap i j xs = xs[i := xs ! j, j := xs ! i]"

text \<open>\<^verbatim>\<open>for j := i; j > a && data.Less(j, j-1); j-- { data.Swap(j, j-1) }\<close> with \<open>a = 0\<close>.\<close>

fun sink :: "('a \<Rightarrow> 'a \<Rightarrow> bool) \<Rightarrow> nat \<Rightarrow> 'a list \<Rightarrow> 'a list" where
  "sink lt 0 xs = xs"
| "sink lt (Suc j) xs = (if lt (xs ! Suc j) (xs ! j) then sink lt j (Swap (Suc j) j xs) else xs)"

definition insertionSort :: "('a \<Rightarrow> 'a \<Rightarrow> bool) \<Rightarrow> 'a list \<Rightarrow> 'a list" where
  "insertionSort lt xs = foldl (\<lambda>ys i. sink lt i ys) xs [1..<length xs]"

definition shellPass :: "('a \<Rightarrow> 'a \<Rightarrow> bool) \<Rightarrow> 'a list \<Rightarrow> 'a list" where
  "shellPass lt xs =
     foldl (\<lambda>ys i. if lt (ys ! i) (ys ! (i - 6)) then Swap i (i - 6) ys else ys) xs [6..<length xs]"

definition sort_short :: "('a \<Rightarrow> 'a \<Rightarrow> bool) \<Rightarrow> 'a list \<Rightarrow> 'a list" where
  "sort_short lt xs = (if 1 < length xs then insertionSort lt (shellPass lt xs) else xs)"

text \<open>\<^verbatim>\<open>path.Join\<close> on two clean elements: one separator between them, none at the end.\<close>

definition join_clean :: "string \<Rightarrow> string \<Rightarrow> string" where
  "join_clean a b = TrimRight a ''/'' @ ''/'' @ TrimRight b ''/''"

text \<open>A stand-in for the engine: it rejects what is no padded upper-case string.\<close>

definition toy_totp :: generator where
  "toy_totp secret t opts =
    (if length secret mod 8 = 0 \<and> list_all (\<lambda>c. c = CHR ''='' \<or> upper_byte c = c \<and> lower_byte c \<noteq> c) secret
     then (replicate (nat (opts_Digits opts)) CHR ''7'', None)
     else ([], Some (Error ''invalid secret'')))"

text \<open>\<^verbatim>\<open>strconv.Atoi\<close> on the numerals the test runs use.\<close>

definition toy_Atoi :: "string \<Rightarrow> int \<times> error option" where
  "toy_Atoi s = (if s = ''6'' then (6, None) else if s = ''8'' then (8, None)
     else if s = ''30'' then (30, None) else if s = ''60'' then (60, None)
     else (0, Some (Error ''invalid syntax'')))"

text \<open>
  The namespace of the scenario: \<^verbatim>\<open>root/\<close> lists \<^verbatim>\<open>a/\<close> and \<^verbatim>\<open>b\<close>, \<^verbatim>\<open>root/a\<close> lists
  \<^verbatim>\<open>c\<close>; the leaves \<^verbatim>\<open>root/a/c\<close> and \<^verbatim>\<open>root/b\<close> hold the secrets, \<^verbatim>\<open>root/b\<close> a stored
  code as well.
\<close>

definition scenario_List :: "string \<Rightarrow> list_resp" where
  "scenario_List key =
    (if key = ''root/'' then ListSecret (KeysList [VString ''a/'', VString ''b''])
     else if key = ''root/a'' then ListSecret (KeysList [VString ''c''])
     else ListNil)"

definition scenario_Read :: "string \<Rightarrow> read_resp" where
  "scenario_Read k =
    (if k = ''root/a/c'' then
       ReadSecret (Some [(''secret'', VString ''AAAAAAAA''), (''digits'', VString ''6''),
                         (''period'', VString ''30'')])
     else if k = ''root/b'' then
       ReadSecret (Some [(''code'', VString ''000000''), (''secret'', VString ''BBBBBBBB''),
                         (''digits'', VString ''6''), (''period'', VString ''30'')])
     else ReadErr (Error ''not found''))"

definition scenario :: env where
  "scenario = \<lparr>cfg_Vault_Prefix = ''root/*'', cfg_Vault_SecretField = ''secret'',
     api_NewClient = None, vault_List = scenario_List, vault_Read = scenario_Read,
     totp_GenerateCodeCustom = toy_totp, strconv_Atoi = toy_Atoi, path_Join = join_clean,
     unicode_ToUpper = id, unicode_ToLower = id, sort_Sort = sort_short\<rparr>"

text \<open>A schedule that runs the scenario to its end.\<close>

definition scenario_schedule :: "event list" where
  "scenario_schedule =
    [EvMain, EvMain, EvMain, EvMain,
     EvSelectScan, EvDisp,
     EvWorker 0, EvWorker 0, EvWorker 0, EvWorker 0, EvWorker 0, EvWorker 0,
     EvSelectFetch, EvDisp, EvSelectScan, EvDisp,
     EvWorker 1, EvWorker 1, EvWorker 1, EvWorker 1,
     EvWorker 2, EvWorker 2, EvWorker 2, EvWorker 2,
     EvSelectFetch, EvDisp,
     EvWorker 3, EvWorker 3, EvWorker 3, EvWorker 3,
     EvSelectResp, EvDisp, EvDisp, EvSelectResp, EvDisp, EvDisp,
     EvMain, EvMain, EvMain]"

section \<open>The units of work the counter accounts for\<close>

text \<open>
  What each goroutine holds of the counter at each of its program points: a worker one
  unit from its start to its deferred \<^verbatim>\<open>wg.Done()\<close>, two between its \<^verbatim>\<open>wg.Add(1)\<close> and the
  send that follows; the dispatcher one unit while it is inside a case of the \<^verbatim>\<open>select\<close>.
\<close>

fun weight :: "worker \<Rightarrow> int" where
  "weight (ScanList k) = 1"
| "weight (ScanRange k sks) = 1"
| "weight (ScanSend k kd c sks) = 2"
| "weight (FetchRead k) = 1"
| "weight (FetchAdd k t) = 1"
| "weight (FetchSend k t) = 2"
| "weight (FetchDefer k) = 1"
| "weight (Finished kd k) = 0"

fun held :: "dispatcher \<Rightarrow> int" where
  "held (GoScan k) = 1"
| "held (GoFetch k) = 1"
| "held (Append t) = 1"
| "held RespDone = 1"
| "held d = 0"

definition pending :: "state \<Rightarrow> int" where
  "pending s = int (length (scanPool s)) + int (length (keyPoolChan s)) + int (length (respChan s))
     + held (disp s) + sum_list (map weight (workers s))"

fun finished :: "worker \<Rightarrow> bool" where
  "finished (Finished kd k) = True"
| "finished w = False"

definition drained :: "state \<Rightarrow> bool" where
  "drained s = (scanPool s = [] \<and> keyPoolChan s = [] \<and> respChan s = []
     \<and> list_all finished (workers s) \<and> held (disp s) = 0)"

definition phase_ok :: "state \<Rightarrow> bool" where
  "phase_ok s =
    ((case mainpc s of
        Main_NewClient \<Rightarrow> disp s = NotStarted \<and> scanPool s = []
      | Main_Enqueue \<Rightarrow> disp s = NotStarted \<and> scanPool s = []
      | Main_Add \<Rightarrow> disp s = NotStarted \<and> length (scanPool s) = 1
      | Main_Go \<Rightarrow> disp s = NotStarted \<and> length (scanPool s) = 1
      | Main_Wait \<Rightarrow> disp s \<noteq> NotStarted \<and> disp s \<noteq> Closed
      | Main_Sort \<Rightarrow> disp s = Select \<and> wg s = 0
      | Main_Return \<Rightarrow> disp s = Select \<and> wg s = 0
      | Main_Returned r \<Rightarrow>
          (case r of Inl e \<Rightarrow> disp s = NotStarted \<and> scanPool s = []
                   | Inr ts \<Rightarrow> disp s = Closed \<and> wg s = 0))
     \<and> (disp s = NotStarted \<longrightarrow> workers s = [] \<and> keyPoolChan s = [] \<and> respChan s = []))"

definition counter_inv :: "state \<Rightarrow> bool" where
  "counter_inv s = (phase_ok s
     \<and> wg s = pending s - (if mainpc s = Main_Add then 1 else 0)
     \<and> panicked s \<noteq> Some NegativeCounter \<and> panicked s \<noteq> Some ClosedChannel)"


section \<open>What the history of a run shows\<close>

fun sender :: "action \<Rightarrow> actor option" where
  "sender (SendScan a k) = Some a"
| "sender (SendFetch a k) = Some a"
| "sender (SendResp a t) = Some a"
| "sender x = None"

definition adds_by :: "actor \<Rightarrow> action list \<Rightarrow> nat" where
  "adds_by a h = length (filter (\<lambda>x. x = WgAdd a) h)"

definition dones_by :: "actor \<Rightarrow> action list \<Rightarrow> nat" where
  "dones_by a h = length (filter (\<lambda>x. x = WgDone a) h)"

definition sends_by :: "actor \<Rightarrow> action list \<Rightarrow> nat" where
  "sends_by a h = length (filter (\<lambda>x. sender x = Some a) h)"

text \<open>
  Every send by one of the actors \<open>P\<close> comes after a \<^verbatim>\<open>wg.Add(1)\<close> of the same actor that
  no earlier send of his has used up. The list is the history, latest action first.
\<close>

fun covered :: "(actor \<Rightarrow> bool) \<Rightarrow> action list \<Rightarrow> bool" where
  "covered P [] = True"
| "covered P (x # older) =
     ((case sender x of
         None \<Rightarrow> True
       | Some a \<Rightarrow> (if P a then sends_by a older < adds_by a older else True))
      \<and> covered P older)"

definition sends_covered :: "(actor \<Rightarrow> bool) \<Rightarrow> action list \<Rightarrow> bool" where
  "sends_covered P h = covered P (rev h)"

fun is_worker :: "actor \<Rightarrow> bool" where
  "is_worker (AWorker i) = True"
| "is_worker a = False"

fun sending :: "worker \<Rightarrow> bool" where
  "sending (ScanSend k kd c sks) = True"
| "sending (FetchSend k t) = True"
| "sending w = False"

text \<open>\<^verbatim>\<open>wg.Wait()\<close> has returned.\<close>

fun waited :: "mainpc \<Rightarrow> bool" where
  "waited Main_Sort = True"
| "waited Main_Return = True"
| "waited (Main_Returned (Inr ts)) = True"
| "waited pc = False"

text \<open>A worker has sent once for each of its \<^verbatim>\<open>wg.Add(1)\<close>, but for the one it is about to use.\<close>

definition credit_ok :: "state \<Rightarrow> nat \<Rightarrow> bool" where
  "credit_ok s i =
    (adds_by (AWorker i) (history s) =
       sends_by (AWorker i) (history s)
         + (if i < length (workers s) \<and> sending (workers s ! i) then 1 else 0))"

definition credit_inv :: "state \<Rightarrow> bool" where
  "credit_inv s = ((\<forall>i. credit_ok s i) \<and> sends_covered is_worker (history s))"

text \<open>The caller has passed its \<^verbatim>\<open>wg.Add(1)\<close>.\<close>

fun added :: "mainpc \<Rightarrow> bool" where
  "added Main_NewClient = False"
| "added Main_Enqueue = False"
| "added Main_Add = False"
| "added (Main_Returned (Inl e)) = False"
| "added pc = True"

definition main_add_inv :: "state \<Rightarrow> bool" where
  "main_add_inv s = (adds_by AMain (history s) = (if added (mainpc s) then 1 else 0))"

fun any_actor :: "actor \<Rightarrow> bool" where
  "any_actor a = True"

section \<open>Counting increments, decrements, work items and records\<close>














section \<open>The namespace as a tree\<close>

text \<open>
  The keys a traversal from \<open>key\<close> meets when it goes at most \<open>n\<close> levels deep: the keys it
  lists (the directories, \<open>key\<close> first) and the keys it reads (the leaves), as
  \<^verbatim>\<open>scanKeyForSubKeys\<close> sorts the children by their trailing separator. \<open>None\<close>: the
  namespace is deeper than \<open>n\<close>, or a listing makes the worker panic. So
  \<open>walk E n root = Some (S, F)\<close> says that the namespace under \<open>root\<close> is a finite tree with
  the directory keys \<open>S\<close> and the leaf keys \<open>F\<close>.
\<close>

type_synonym keys = "string list \<times> string list"

fun walk_list :: "(string \<Rightarrow> keys option) \<Rightarrow> env \<Rightarrow> string \<Rightarrow> val list \<Rightarrow> keys option" where
  "walk_list sub E key [] = Some ([], [])"
| "walk_list sub E key (sk # rest) =
     (case sk of
        VOther \<Rightarrow> None
      | VString sks \<Rightarrow>
          (case walk_list sub E key rest of
             None \<Rightarrow> None
           | Some (S2, F2) \<Rightarrow>
               if HasSuffix sks ''/''
               then (case sub (path_Join E key sks) of
                       None \<Rightarrow> None
                     | Some (S1, F1) \<Rightarrow> Some (S1 @ S2, F1 @ F2))
               else Some (S2, path_Join E key sks # F2)))"

primrec walk :: "env \<Rightarrow> nat \<Rightarrow> string \<Rightarrow> keys option" where
  "walk E 0 = (\<lambda>key. None)"
| "walk E (Suc n) = (\<lambda>key.
     case vault_List E key of
       ListSecret (KeysList sks) \<Rightarrow>
         (case walk_list (walk E n) E key sks of
            None \<Rightarrow> None
          | Some (S, F) \<Rightarrow> Some (key # S, F))
     | ListSecret KeysOther \<Rightarrow> None
     | _ \<Rightarrow> Some ([key], []))"


definition wdef :: "env \<Rightarrow> nat \<Rightarrow> string \<Rightarrow> bool" where
  "wdef E n k = (walk E n k \<noteq> None)"

definition wS :: "env \<Rightarrow> nat \<Rightarrow> string \<Rightarrow> string multiset" where
  "wS E n k = (case walk E n k of None \<Rightarrow> {#} | Some r \<Rightarrow> mset (fst r))"

definition wF :: "env \<Rightarrow> nat \<Rightarrow> string \<Rightarrow> string multiset" where
  "wF E n k = (case walk E n k of None \<Rightarrow> {#} | Some r \<Rightarrow> mset (snd r))"

definition ldef :: "env \<Rightarrow> nat \<Rightarrow> string \<Rightarrow> val list \<Rightarrow> bool" where
  "ldef E n k sks = (walk_list (walk E n) E k sks \<noteq> None)"

definition lS :: "env \<Rightarrow> nat \<Rightarrow> string \<Rightarrow> val list \<Rightarrow> string multiset" where
  "lS E n k sks = (case walk_list (walk E n) E k sks of None \<Rightarrow> {#} | Some r \<Rightarrow> mset (fst r))"

definition lF :: "env \<Rightarrow> nat \<Rightarrow> string \<Rightarrow> val list \<Rightarrow> string multiset" where
  "lF E n k sks = (case walk_list (walk E n) E k sks of None \<Rightarrow> {#} | Some r \<Rightarrow> mset (snd r))"

fun wok :: "env \<Rightarrow> nat \<Rightarrow> worker \<Rightarrow> bool" where
  "wok E n (ScanList k) = wdef E n k"
| "wok E n (ScanRange k sks) = ldef E n k sks"
| "wok E n (ScanSend k kd c sks) = (ldef E n k sks \<and> (if kd = Scan then wdef E n c else True))"
| "wok E n w = True"

fun cS :: "env \<Rightarrow> nat \<Rightarrow> worker \<Rightarrow> string multiset" where
  "cS E n (ScanList k) = wS E n k"
| "cS E n (ScanRange k sks) = {#k#} + lS E n k sks"
| "cS E n (ScanSend k kd c sks) = {#k#} + (if kd = Scan then wS E n c else {#}) + lS E n k sks"
| "cS E n (Finished kd k) = (if kd = Scan then {#k#} else {#})"
| "cS E n w = {#}"

fun cF :: "env \<Rightarrow> nat \<Rightarrow> worker \<Rightarrow> string multiset" where
  "cF E n (ScanList k) = wF E n k"
| "cF E n (ScanRange k sks) = lF E n k sks"
| "cF E n (ScanSend k kd c sks) = (if kd = Scan then wF E n c else {#c#}) + lF E n k sks"
| "cF E n (FetchRead k) = {#k#}"
| "cF E n (FetchAdd k t) = {#k#}"
| "cF E n (FetchSend k t) = {#k#}"
| "cF E n (FetchDefer k) = {#k#}"
| "cF E n (Finished kd k) = (if kd = Fetch then {#k#} else {#})"

fun dok :: "env \<Rightarrow> nat \<Rightarrow> dispatcher \<Rightarrow> bool" where
  "dok E n (GoScan k) = wdef E n k"
| "dok E n d = True"

fun dS :: "env \<Rightarrow> nat \<Rightarrow> dispatcher \<Rightarrow> string multiset" where
  "dS E n (GoScan k) = wS E n k"
| "dS E n d = {#}"

fun dF :: "env \<Rightarrow> nat \<Rightarrow> dispatcher \<Rightarrow> string multiset" where
  "dF E n (GoScan k) = wF E n k"
| "dF E n (GoFetch k) = {#k#}"
| "dF E n d = {#}"

definition SK :: "env \<Rightarrow> nat \<Rightarrow> state \<Rightarrow> string multiset" where
  "SK E n s = sum_list (map (wS E n) (scanPool s)) + dS E n (disp s) + sum_list (map (cS E n) (workers s))"

definition FK :: "env \<Rightarrow> nat \<Rightarrow> state \<Rightarrow> string multiset" where
  "FK E n s = sum_list (map (wF E n) (scanPool s)) + mset (keyPoolChan s) + dF E n (disp s)
     + sum_list (map (cF E n) (workers s))"

definition tree_ok :: "env \<Rightarrow> nat \<Rightarrow> state \<Rightarrow> bool" where
  "tree_ok E n s = (list_all (wdef E n) (scanPool s) \<and> dok E n (disp s) \<and> list_all (wok E n) (workers s))"

definition root_key :: "env \<Rightarrow> string" where
  "root_key E = TrimRight (cfg_Vault_Prefix E) ''*''"

fun enqueued :: "mainpc \<Rightarrow> bool" where
  "enqueued Main_NewClient = False"
| "enqueued Main_Enqueue = False"
| "enqueued (Main_Returned (Inl e)) = False"
| "enqueued pc = True"

definition tree_inv :: "env \<Rightarrow> nat \<Rightarrow> state \<Rightarrow> bool" where
  "tree_inv E n s =
    (if enqueued (mainpc s)
     then tree_ok E n s \<and> SK E n s = wS E n (root_key E) \<and> FK E n s = wF E n (root_key E)
     else True)"


section \<open>The records of a run\<close>

text \<open>
  The keys read so far, and the records the reads have produced, as the history tells: a
  fetch worker notes its key and its clock reading when it runs the body of
  \<^verbatim>\<open>fetchTokenFromKey\<close>.
\<close>

fun read_key_of :: "action \<Rightarrow> string list" where
  "read_key_of (ReadClock i k t) = [k]"
| "read_key_of x = []"

definition fetched_keys :: "action list \<Rightarrow> string list" where
  "fetched_keys h = concat (map read_key_of h)"

fun has_read :: "worker \<Rightarrow> string multiset" where
  "has_read (FetchAdd k t) = {#k#}"
| "has_read (FetchSend k t) = {#k#}"
| "has_read (FetchDefer k) = {#k#}"
| "has_read (Finished kd k) = (if kd = Fetch then {#k#} else {#})"
| "has_read w = {#}"

definition read_inv :: "state \<Rightarrow> bool" where
  "read_inv s = (mset (fetched_keys (history s)) = sum_list (map has_read (workers s)))"

definition produced :: "env \<Rightarrow> bool \<Rightarrow> time \<Rightarrow> string \<Rightarrow> token list" where
  "produced E next t k = (case fetch_body E next t k of FetchDeliver tok \<Rightarrow> [tok] | _ \<Rightarrow> [])"

fun reading :: "env \<Rightarrow> bool \<Rightarrow> action \<Rightarrow> token list" where
  "reading E next (ReadClock i k t) = produced E next t k"
| "reading E next x = []"

definition delivered :: "env \<Rightarrow> bool \<Rightarrow> action list \<Rightarrow> token list" where
  "delivered E next h = concat (map (reading E next) h)"

fun carrying :: "worker \<Rightarrow> token multiset" where
  "carrying (FetchAdd k t) = {#t#}"
| "carrying (FetchSend k t) = {#t#}"
| "carrying w = {#}"

fun heldtok :: "dispatcher \<Rightarrow> token multiset" where
  "heldtok (Append t) = {#t#}"
| "heldtok d = {#}"

definition flow :: "env \<Rightarrow> bool \<Rightarrow> state \<Rightarrow> bool" where
  "flow E next s =
    (mset (resp s) + mset (respChan s) + heldtok (disp s) + sum_list (map carrying (workers s))
       = mset (delivered E next (history s)))"

definition sorted_stage :: "env \<Rightarrow> bool \<Rightarrow> state \<Rightarrow> bool" where
  "sorted_stage E next s =
    (\<exists>r0. resp s = sort_Sort E (Less (unicode_ToLower E)) r0
          \<and> mset r0 = mset (delivered E next (history s)))"

definition rec_inv :: "env \<Rightarrow> bool \<Rightarrow> state \<Rightarrow> bool" where
  "rec_inv E next s =
    (case mainpc s of
       Main_Return \<Rightarrow> sorted_stage E next s
     | Main_Returned r \<Rightarrow> (case r of Inl e \<Rightarrow> True | Inr ts \<Rightarrow> sorted_stage E next s \<and> ts = resp s)
     | _ \<Rightarrow> flow E next s)"


section \<open>What \<^verbatim>\<open>sort.Sort\<close> promises\<close>

text \<open>
  \<^verbatim>\<open>sort.Sort\<close> only swaps elements, and leaves no pair in which the later element is
  \<^verbatim>\<open>Less\<close> than the earlier one: the result is a permutation of the input, in ascending
  order of the lower-cased names. (It does not promise to be stable.) The two
  insertion functions describe what \<open>insertionSort\<close> computes, latest element first.
\<close>

fun ins :: "('a \<Rightarrow> 'a \<Rightarrow> bool) \<Rightarrow> 'a \<Rightarrow> 'a list \<Rightarrow> 'a list" where
  "ins lt x [] = [x]"
| "ins lt x (r # rs) = (if lt x r then r # ins lt x rs else x # r # rs)"

definition isr :: "('a \<Rightarrow> 'a \<Rightarrow> bool) \<Rightarrow> 'a list \<Rightarrow> 'a list" where
  "isr lt xs = foldl (\<lambda>acc x. ins lt x acc) [] xs"

definition name_key :: "(string \<Rightarrow> string) \<Rightarrow> token \<Rightarrow> string" where
  "name_key lower t = ToLower lower (Name t)"

definition sort_permutes :: "env \<Rightarrow> bool" where
  "sort_permutes E = (\<forall>xs. mset (sort_Sort E (Less (unicode_ToLower E)) xs) = mset xs)"

definition sort_sorts :: "env \<Rightarrow> bool" where
  "sort_sorts E = (\<forall>xs. sorted (map (name_key (unicode_ToLower E)) (sort_Sort E (Less (unicode_ToLower E)) xs)))"


section \<open>Notions for the results of a run\<close>

text \<open>The kind and the key of a worker, whatever its program point.\<close>

fun kind_of :: "worker \<Rightarrow> kind" where
  "kind_of (ScanList k) = Scan"
| "kind_of (ScanRange k sks) = Scan"
| "kind_of (ScanSend k kd c sks) = Scan"
| "kind_of (FetchRead k) = Fetch"
| "kind_of (FetchAdd k t) = Fetch"
| "kind_of (FetchSend k t) = Fetch"
| "kind_of (FetchDefer k) = Fetch"
| "kind_of (Finished kd k) = kd"

fun key_of :: "worker \<Rightarrow> string" where
  "key_of (ScanList k) = k"
| "key_of (ScanRange k sks) = k"
| "key_of (ScanSend k kd c sks) = k"
| "key_of (FetchRead k) = k"
| "key_of (FetchAdd k t) = k"
| "key_of (FetchSend k t) = k"
| "key_of (FetchDefer k) = k"
| "key_of (Finished kd k) = k"

definition scan_keys :: "worker list \<Rightarrow> string list" where
  "scan_keys ws = map key_of (filter (\<lambda>w. kind_of w = Scan) ws)"

definition fetch_keys :: "worker list \<Rightarrow> string list" where
  "fetch_keys ws = map key_of (filter (\<lambda>w. kind_of w = Fetch) ws)"


definition fresh_token :: "string \<Rightarrow> token" where
  "fresh_token k = \<lparr>Code = [], Icon = ''key'', Name = k, Secret = [], Digits = 0, Period = 0\<rparr>"

fun no_tick :: "event \<Rightarrow> bool" where
  "no_tick (EvTick d) = False"
| "no_tick ev = True"

definition tickfree :: "event list \<Rightarrow> bool" where
  "tickfree sched = list_all no_tick sched"

fun read_at :: "time \<Rightarrow> action \<Rightarrow> bool" where
  "read_at t0 (ReadClock i k t) = (t = t0)"
| "read_at t0 x = True"

definition clock_inv :: "time \<Rightarrow> state \<Rightarrow> bool" where
  "clock_inv t0 s = (clock s = t0 \<and> list_all (read_at t0) (history s))"

definition records_at :: "env \<Rightarrow> bool \<Rightarrow> time \<Rightarrow> string list \<Rightarrow> token list" where
  "records_at E next t ks = concat (map (produced E next t) ks)"

definition client_inv :: "env \<Rightarrow> state \<Rightarrow> bool" where
  "client_inv E s =
    (case mainpc s of
       Main_NewClient \<Rightarrow> True
     | Main_Returned r \<Rightarrow> (case r of Inl e \<Rightarrow> api_NewClient E = Some e | Inr ts \<Rightarrow> api_NewClient E = None)
     | _ \<Rightarrow> api_NewClient E = None)"


section \<open>Notions of the specification\<close>

text \<open>
  The specification's padding: the secret followed by as many \<^verbatim>\<open>=\<close> as lead to the next
  multiple of eight characters.
\<close>

definition pad8 :: "string \<Rightarrow> string" where
  "pad8 s = s @ replicate ((8 - length s mod 8) mod 8) CHR ''=''"

text \<open>Tokens for test runs: secrets of 5, 10, 16 and 0 characters.\<close>

definition tok_of_secret :: "string \<Rightarrow> token" where
  "tok_of_secret s = \<lparr>Code = [], Icon = ''key'', Name = ''n'', Secret = s, Digits = 0, Period = 0\<rparr>"

section \<open>States of the test runs\<close>

text \<open>The two records of the scenario, and the state in which its run ends.\<close>

definition tok_c :: token where
  "tok_c = \<lparr>Code = ''777777'', Icon = ''key'', Name = ''root/a/c'', Secret = ''AAAAAAAA'',
     Digits = 6, Period = 30\<rparr>"

definition tok_b :: token where
  "tok_b = \<lparr>Code = ''777777'', Icon = ''key'', Name = ''root/b'', Secret = ''BBBBBBBB'',
     Digits = 6, Period = 30\<rparr>"

definition scenario_final :: state where
  "scenario_final = \<lparr>wg = 0, scanPool = [], keyPoolChan = [], respChan = [],
     resp = [tok_c, tok_b],
     workers = [Finished Scan ''root/'', Finished Fetch ''root/b'',
        Finished Scan ''root/a'', Finished Fetch ''root/a/c''],
     disp = Closed,
     mainpc = Main_Returned (Inr [tok_c, tok_b]),
     clock = 0, panicked = None,
     history =
       [SendScan AMain ''root/'', WgAdd AMain, WgAdd (AWorker 0),
        SendScan (AWorker 0) ''root/a'', WgAdd (AWorker 0),
        SendFetch (AWorker 0) ''root/b'', WgDone (AWorker 0),
        ReadClock 1 ''root/b'' 0, WgAdd (AWorker 1),
        SendResp (AWorker 1) tok_b,
        WgDone (AWorker 1), WgAdd (AWorker 2),
        SendFetch (AWorker 2) ''root/a/c'', WgDone (AWorker 2),
        ReadClock 3 ''root/a/c'' 0, WgAdd (AWorker 3),
        SendResp (AWorker 3) tok_c,
        WgDone (AWorker 3), WgDone ADispatcher, WgDone ADispatcher]\<rparr>"

text \<open>The state after the caller's send of the root key.\<close>

definition scenario_enqueued :: state where
  "scenario_enqueued = \<lparr>wg = 0, scanPool = [''root/''], keyPoolChan = [], respChan = [],
     resp = [], workers = [], disp = NotStarted, mainpc = Main_Add,
     clock = 0, panicked = None, history = [SendScan AMain ''root/'']\<rparr>"

section \<open>Code generation\<close>

lemma upper_byte_pad: "upper_byte CHR ''='' = CHR ''=''"
  by code_simp

lemma isASCII_append: "isASCII (a @ b) = (isASCII a \<and> isASCII b)"
  by (simp add: isASCII_def)

lemma isASCII_pad: "isASCII (replicate n CHR ''='')"
  by (simp add: isASCII_def list_all_iff)

lemma padding_is_pad8:
  "(if length s mod 8 \<noteq> 0 then s @ replicate (8 - length s mod 8) CHR ''='' else s) = pad8 s"
  unfolding pad8_def by (auto simp: mod_less)

lemma GenerateCode_unfold:
  "GenerateCode gen up now next t =
     (let r = gen (ToUpper up (pad8 (Secret t)))
                  (if next then now + wrap_int64 (Period t * time_Second) else now)
                  \<lparr>opts_Period = (if Period t = 0 then 30 else uint_of_int (Period t)),
                   opts_Skew = 1,
                   opts_Digits = (if Digits t = 0 then 6 else Digits t),
                   opts_Algorithm = AlgorithmSHA1\<rparr>
      in (t\<lparr>Code := fst r\<rparr>, snd r))"
  unfolding GenerateCode_def Let_def padding_is_pad8 by (simp add: case_prod_beta)

text \<open>
  C6. \<^verbatim>\<open>GenerateCode\<close> calls the engine with the upper-cased secret padded with \<^verbatim>\<open>=\<close> to
  the next multiple of eight characters (the padded secret has a length divisible by
  eight, fewer than eight characters are added, and a secret whose length is a multiple of
  eight is left as it is), with the digit count 6 when the field is 0, the period 30 when
  the field is 0, and the skew 1. On an ASCII secret the argument is the upper-cased secret
  followed by the padding.
\<close>

theorem GenerateCode_call:
  "GenerateCode gen up now next t =
     (let r = gen (ToUpper up (pad8 (Secret t)))
                  (if next then now + wrap_int64 (Period t * time_Second) else now)
                  \<lparr>opts_Period = (if Period t = 0 then 30 else uint_of_int (Period t)),
                   opts_Skew = 1,
                   opts_Digits = (if Digits t = 0 then 6 else Digits t),
                   opts_Algorithm = AlgorithmSHA1\<rparr>
      in (t\<lparr>Code := fst r\<rparr>, snd r))
   \<and> length (pad8 (Secret t)) mod 8 = 0
   \<and> length (pad8 (Secret t)) < length (Secret t) + 8
   \<and> (length (Secret t) mod 8 = 0 \<longrightarrow> pad8 (Secret t) = Secret t)
   \<and> (isASCII (Secret t) \<longrightarrow>
        ToUpper up (pad8 (Secret t)) =
          map upper_byte (Secret t) @ replicate ((8 - length (Secret t) mod 8) mod 8) CHR ''='')"
proof -
  have a: "length (pad8 (Secret t)) mod 8 = 0"
    unfolding pad8_def by (simp add: mod_simps) presburger
  have b: "length (pad8 (Secret t)) < length (Secret t) + 8"
    unfolding pad8_def by simp
  have c: "length (Secret t) mod 8 = 0 \<longrightarrow> pad8 (Secret t) = Secret t"
    unfolding pad8_def by simp
  have d: "isASCII (Secret t) \<longrightarrow>
        ToUpper up (pad8 (Secret t)) =
          map upper_byte (Secret t) @ replicate ((8 - length (Secret t) mod 8) mod 8) CHR ''=''"
    unfolding pad8_def ToUpper_def by (simp add: isASCII_append isASCII_pad upper_byte_pad)
  from a b c d GenerateCode_unfold [of gen up now "next" t] show ?thesis by blast
qed

theorem GenerateCode_call_witness:
  "length (Secret (tok_of_secret ''abcdefghijklmnop'')) mod 8 = 0
   \<and> pad8 (Secret (tok_of_secret ''abcdefghijklmnop'')) = ''abcdefghijklmnop''
   \<and> isASCII (Secret (tok_of_secret ''abcde''))
   \<and> ToUpper id (pad8 (Secret (tok_of_secret ''abcde''))) = ''ABCDE===''
   \<and> isASCII (Secret (tok_of_secret ''abcdefghij''))
   \<and> ToUpper id (pad8 (Secret (tok_of_secret ''abcdefghij''))) = ''ABCDEFGHIJ======''
   \<and> GenerateCode toy_totp id 0 False (tok_of_secret ''abcde'')
        = ((tok_of_secret ''abcde'')\<lparr>Code := ''777777''\<rparr>, None)"
proof -
  have h16: "length (Secret (tok_of_secret ''abcdefghijklmnop'')) mod 8 = 0"
    by (simp add: tok_of_secret_def)
  have a5: "isASCII (Secret (tok_of_secret ''abcde''))"
    by code_simp
  have a10: "isASCII (Secret (tok_of_secret ''abcdefghij''))"
    by code_simp
  have u5: "map upper_byte (Secret (tok_of_secret ''abcde''))
             @ replicate ((8 - length (Secret (tok_of_secret ''abcde'')) mod 8) mod 8) CHR ''=''
            = ''ABCDE===''"
    by code_simp
  have u10: "map upper_byte (Secret (tok_of_secret ''abcdefghij''))
             @ replicate ((8 - length (Secret (tok_of_secret ''abcdefghij'')) mod 8) mod 8) CHR ''=''
            = ''ABCDEFGHIJ======''"
    by code_simp
  have g: "toy_totp ''ABCDE==='' 0
             \<lparr>opts_Period = 30, opts_Skew = 1, opts_Digits = 6, opts_Algorithm = AlgorithmSHA1\<rparr>
           = (''777777'', None)"
    by code_simp
  have s16: "Secret (tok_of_secret ''abcdefghijklmnop'') = ''abcdefghijklmnop''"
    by (simp add: tok_of_secret_def)
  have f5: "Period (tok_of_secret ''abcde'') = 0 \<and> Digits (tok_of_secret ''abcde'') = 0"
    by (simp add: tok_of_secret_def)
  note t16 = GenerateCode_call [of toy_totp id 0 False "tok_of_secret ''abcdefghijklmnop''"]
  note t5 = GenerateCode_call [of toy_totp id 0 False "tok_of_secret ''abcde''"]
  note t10 = GenerateCode_call [of toy_totp id 0 False "tok_of_secret ''abcdefghij''"]
  from t16 h16 s16 have r16: "pad8 (Secret (tok_of_secret ''abcdefghijklmnop'')) = ''abcdefghijklmnop''"
    by simp
  from t5 a5 u5 have r5: "ToUpper id (pad8 (Secret (tok_of_secret ''abcde''))) = ''ABCDE===''"
    by simp
  from t10 a10 u10 have r10: "ToUpper id (pad8 (Secret (tok_of_secret ''abcdefghij''))) = ''ABCDEFGHIJ======''"
    by simp
  from t5 r5 g f5 have c5: "GenerateCode toy_totp id 0 False (tok_of_secret ''abcde'')
        = ((tok_of_secret ''abcde'')\<lparr>Code := ''777777''\<rparr>, None)"
    by (simp add: Let_def)
  from h16 r16 a5 r5 a10 r10 c5 show ?thesis by blast
qed

text \<open>
  C5 at the failing input: with the period field unset (0) the flag \<open>next\<close> changes nothing;
  the code is computed at \<open>now\<close>, although the engine is given the period 30.
\<close>

theorem GenerateCode_next_unset_period:
  "GenerateCode gen up now True (t\<lparr>Period := 0\<rparr>) = GenerateCode gen up now False (t\<lparr>Period := 0\<rparr>)
   \<and> GenerateCode gen up now True (t\<lparr>Period := 0\<rparr>) =
       (let r = gen (ToUpper up (pad8 (Secret t))) now
                  \<lparr>opts_Period = 30, opts_Skew = 1,
                   opts_Digits = (if Digits t = 0 then 6 else Digits t),
                   opts_Algorithm = AlgorithmSHA1\<rparr>
        in (t\<lparr>Period := 0, Code := fst r\<rparr>, snd r))"
  by (simp add: GenerateCode_unfold wrap_int64_def Let_def)

text \<open>With the period field 30 and the flag set the code is computed thirty seconds ahead.\<close>

lemma GenerateCode_next_30:
  "GenerateCode gen up now True (t\<lparr>Period := 30\<rparr>) =
    (let r = gen (ToUpper up (pad8 (Secret t))) (now + 30 * time_Second)
                  \<lparr>opts_Period = 30, opts_Skew = 1,
                   opts_Digits = (if Digits t = 0 then 6 else Digits t),
                   opts_Algorithm = AlgorithmSHA1\<rparr>
      in (t\<lparr>Period := 30, Code := fst r\<rparr>, snd r))"
  by (simp add: GenerateCode_unfold wrap_int64_def time_Second_def uint_of_int_def Let_def)

section \<open>The test runs, evaluated\<close>

lemma scenario_run: "exec scenario False scenario_schedule (init 0) = Some scenario_final"
  by code_simp

lemma scenario_enqueue_run: "exec scenario False [EvMain, EvMain] (init 0) = Some scenario_enqueued"
  by code_simp

section \<open>The counter invariant\<close>

lemma weight_nonneg: "0 \<le> weight w"
  by (cases w) auto

lemma held_nonneg: "0 \<le> held d"
  by (cases d) auto

lemma sum_weight_nonneg: "0 \<le> sum_list (map weight ws)"
  by (induction ws) (auto simp: weight_nonneg add_nonneg_nonneg)

lemma sum_weight_update:
  "i < length ws \<Longrightarrow>
   sum_list (map weight (ws[i := w])) = sum_list (map weight ws) - weight (ws ! i) + weight w"
proof (induction ws arbitrary: i)
  case Nil
  then show ?case by simp
next
  case (Cons a ws)
  then show ?case by (cases i) auto
qed

lemma sum_weight_zero: "sum_list (map weight ws) = 0 \<longleftrightarrow> list_all finished ws"
proof (induction ws)
  case Nil
  then show ?case by simp
next
  case (Cons w ws)
  have "weight w = 0 \<longleftrightarrow> finished w" by (cases w) auto
  moreover have "0 \<le> weight w" "0 \<le> sum_list (map weight ws)"
    by (simp_all add: weight_nonneg sum_weight_nonneg)
  ultimately show ?case using Cons by auto
qed

lemma pending_zero: "pending s = 0 \<longleftrightarrow> drained s"
proof -
  have h: "0 \<le> held (disp s)" and w: "0 \<le> sum_list (map weight (workers s))"
    by (simp_all add: held_nonneg sum_weight_nonneg)
  have "pending s = 0 \<longleftrightarrow>
      length (scanPool s) = 0 \<and> length (keyPoolChan s) = 0 \<and> length (respChan s) = 0
      \<and> held (disp s) = 0 \<and> sum_list (map weight (workers s)) = 0"
    unfolding pending_def using h w by linarith
  then show ?thesis
    unfolding drained_def by (auto simp: sum_weight_zero)
qed

lemma pending_nonneg: "0 \<le> pending s"
  unfolding pending_def using held_nonneg [of "disp s"] sum_weight_nonneg [of "workers s"] by simp

lemma held_zero: "held d = 0 \<longleftrightarrow> d = NotStarted \<or> d = Select \<or> d = Closed"
  by (cases d) auto

lemma counter_inv_init: "counter_inv (init t0)"
  by (simp add: counter_inv_def phase_ok_def pending_def init_def)

lemma counter_inv_main:
  assumes "counter_inv s" and "step_main E s = Some s'"
  shows "counter_inv s'"
proof (cases "mainpc s")
  case Main_Wait
  with assms have z: "pending s = 0" and s': "s' = s\<lparr>mainpc := Main_Sort\<rparr>"
    by (auto simp: counter_inv_def step_main_def split: if_splits)
  from z have "held (disp s) = 0" by (simp add: pending_zero drained_def)
  with assms Main_Wait have "disp s = Select"
    by (auto simp: held_zero counter_inv_def phase_ok_def)
  with assms Main_Wait s' z show ?thesis
    by (auto simp: counter_inv_def phase_ok_def pending_def)
qed (use assms in \<open>auto simp: counter_inv_def phase_ok_def pending_def step_main_def wg_Add_def chan_cap_def
      split: option.splits if_splits sum.splits\<close>)

lemma counter_inv_select_scan:
  assumes "counter_inv s" and "step_select_scan s = Some s'"
  shows "counter_inv s'"
  using assms sum_weight_nonneg [of "workers s"]
  by (cases "mainpc s")
     (auto simp: counter_inv_def phase_ok_def pending_def step_select_scan_def
           split: dispatcher.splits list.splits sum.splits)

lemma counter_inv_select_fetch:
  assumes "counter_inv s" and "step_select_fetch s = Some s'"
  shows "counter_inv s'"
  using assms sum_weight_nonneg [of "workers s"]
  by (cases "mainpc s")
     (auto simp: counter_inv_def phase_ok_def pending_def step_select_fetch_def
           split: dispatcher.splits list.splits sum.splits)

lemma counter_inv_select_resp:
  assumes "counter_inv s" and "step_select_resp s = Some s'"
  shows "counter_inv s'"
  using assms sum_weight_nonneg [of "workers s"]
  by (cases "mainpc s")
     (auto simp: counter_inv_def phase_ok_def pending_def step_select_resp_def
           split: dispatcher.splits list.splits sum.splits)

lemma phase_ok_wait:
  "mainpc s = Main_Wait \<Longrightarrow> phase_ok s = (disp s \<noteq> NotStarted \<and> disp s \<noteq> Closed)"
  by (auto simp: phase_ok_def)

lemma weight_le_sum: "i < length ws \<Longrightarrow> weight (ws ! i) \<le> sum_list (map weight ws)"
proof (induction ws arbitrary: i)
  case Nil
  then show ?case by simp
next
  case (Cons a ws)
  show ?case
  proof (cases i)
    case 0
    then show ?thesis using sum_weight_nonneg [of ws] by simp
  next
    case (Suc j)
    with Cons show ?thesis using weight_nonneg [of a] by fastforce
  qed
qed

lemma busy_is_waiting:
  assumes inv: "counter_inv s" and busy: "0 < pending s" and started: "disp s \<noteq> NotStarted"
  shows "mainpc s = Main_Wait"
  using assms
  by (cases "mainpc s") (auto simp: counter_inv_def phase_ok_def split: sum.splits)

lemma counter_inv_disp:
  assumes "counter_inv s" and "step_disp s = Some s'"
  shows "counter_inv s'"
proof -
  from assms(2) have h: "held (disp s) = 1"
    by (cases "disp s") (auto simp: step_disp_def)
  then have "0 < pending s"
    unfolding pending_def using sum_weight_nonneg [of "workers s"] by simp
  moreover from h have "disp s \<noteq> NotStarted" by auto
  ultimately have w: "mainpc s = Main_Wait"
    using assms(1) by (rule busy_is_waiting [rotated 1])
  with assms(1) have c: "wg s = pending s"
    and p: "panicked s \<noteq> Some NegativeCounter" "panicked s \<noteq> Some ClosedChannel"
    by (auto simp: counter_inv_def)
  show ?thesis
    using w c p h assms(2) sum_weight_nonneg [of "workers s"]
    by (cases "disp s")
       (auto simp: counter_inv_def phase_ok_wait pending_def step_disp_def wg_Done_def panic_def
             split: if_splits)
qed

lemma worker_step_active:
  assumes "step_worker E next i s = Some s'"
  shows "i < length (workers s) \<and> 0 < weight (workers s ! i)"
  using assms
  by (cases "workers s ! i") (auto simp: step_worker_def split: if_splits)

lemma worker_step_waiting:
  assumes inv: "counter_inv s" and st: "step_worker E next i s = Some s'"
  shows "mainpc s = Main_Wait"
proof -
  from worker_step_active [OF st] have i: "i < length (workers s)" and w: "0 < weight (workers s ! i)"
    by simp_all
  from i have "workers s \<noteq> []" by auto
  with inv have d: "disp s \<noteq> NotStarted" by (auto simp: counter_inv_def phase_ok_def)
  from w weight_le_sum [OF i] have "0 < sum_list (map weight (workers s))" by linarith
  then have "0 < pending s"
    unfolding pending_def using held_nonneg [of "disp s"] by simp
  with inv d show ?thesis by (simp add: busy_is_waiting)
qed

lemma counter_inv_worker:
  assumes inv: "counter_inv s" and st: "step_worker E next i s = Some s'"
  shows "counter_inv s'"
proof -
  from worker_step_active [OF st] have i: "i < length (workers s)" by simp
  have w: "mainpc s = Main_Wait" using inv st by (rule worker_step_waiting)
  with inv have c: "wg s = pending s"
    and p: "panicked s \<noteq> Some NegativeCounter" "panicked s \<noteq> Some ClosedChannel"
    and d: "disp s \<noteq> NotStarted" "disp s \<noteq> Closed"
    by (auto simp: counter_inv_def phase_ok_wait)
  have pos: "0 \<le> sum_list (map weight (workers s)) - weight (workers s ! i)"
    using weight_le_sum [OF i] by simp
  show ?thesis
  proof (cases "workers s ! i")
    case (ScanList k)
    with st i w c p d show ?thesis
      by (auto simp: counter_inv_def phase_ok_wait pending_def step_worker_def panic_def
            set_worker_def sum_weight_update
            split: list_resp.splits keys_field.splits)
  next
    case (ScanRange k sks)
    with st i w c p d pos show ?thesis
      using held_nonneg [of "disp s"]
      by (auto simp: counter_inv_def phase_ok_wait pending_def step_worker_def panic_def
            set_worker_def sum_weight_update wg_Add_def wg_Done_def
            split: list.splits val.splits if_splits)
  next
    case (ScanSend k kd c' sks)
    with st i w c p d show ?thesis
      by (auto simp: counter_inv_def phase_ok_wait pending_def step_worker_def panic_def
            set_worker_def sum_weight_update send_scan_def send_fetch_def
            split: kind.splits if_splits)
  next
    case (FetchRead k)
    with st i w c p d show ?thesis
      by (auto simp: counter_inv_def phase_ok_wait pending_def step_worker_def panic_def
            set_worker_def sum_weight_update fetch_body_def
            split: fetch_outcome.splits read_resp.splits option.splits if_splits prod.splits)
  next
    case (FetchAdd k t)
    with st i w c p d show ?thesis
      by (auto simp: counter_inv_def phase_ok_wait pending_def step_worker_def
            set_worker_def sum_weight_update wg_Add_def)
  next
    case (FetchSend k t)
    with st i w c p d show ?thesis
      by (auto simp: counter_inv_def phase_ok_wait pending_def step_worker_def panic_def
            set_worker_def sum_weight_update send_resp_def split: if_splits)
  next
    case (FetchDefer k)
    with st i w c p d pos show ?thesis
      using held_nonneg [of "disp s"]
      by (auto simp: counter_inv_def phase_ok_wait pending_def step_worker_def panic_def
            set_worker_def sum_weight_update wg_Done_def split: if_splits)
  next
    case (Finished kd k)
    with st i show ?thesis by (simp add: step_worker_def)
  qed
qed

lemma exec_invariant:
  assumes "exec E next sched s0 = Some s" and "P s0"
    and "\<And>s ev s'. P s \<Longrightarrow> step E next ev s = Some s' \<Longrightarrow> P s'"
  shows "P s"
  using assms(1,2)
proof (induction sched arbitrary: s0)
  case Nil
  then show ?case by simp
next
  case (Cons ev evs)
  then obtain s1 where s1: "step E next ev s0 = Some s1" and r: "exec E next evs s1 = Some s"
    by (auto split: option.splits)
  from assms(3) [OF Cons.prems(2) s1] have "P s1" .
  with Cons.IH r show ?case by blast
qed

lemma counter_inv_tick: "counter_inv s \<Longrightarrow> counter_inv (s\<lparr>clock := t\<rparr>)"
  by (cases "mainpc s") (auto simp: counter_inv_def phase_ok_def pending_def split: sum.splits)

lemma counter_inv_step:
  assumes "counter_inv s" and "step E next ev s = Some s'"
  shows "counter_inv s'"
proof (cases ev)
  case EvMain
  with assms show ?thesis by (auto simp: step_def split: if_splits intro: counter_inv_main)
next
  case EvSelectScan
  with assms show ?thesis by (auto simp: step_def split: if_splits intro: counter_inv_select_scan)
next
  case EvSelectFetch
  with assms show ?thesis by (auto simp: step_def split: if_splits intro: counter_inv_select_fetch)
next
  case EvSelectResp
  with assms show ?thesis by (auto simp: step_def split: if_splits intro: counter_inv_select_resp)
next
  case EvDisp
  with assms show ?thesis by (auto simp: step_def split: if_splits intro: counter_inv_disp)
next
  case (EvWorker i)
  with assms show ?thesis by (auto simp: step_def split: if_splits intro: counter_inv_worker)
next
  case (EvTick d)
  with assms show ?thesis by (auto simp: step_def split: if_splits intro: counter_inv_tick)
qed

lemma counter_inv_exec: "exec E next sched (init t0) = Some s \<Longrightarrow> counter_inv s"
  by (erule exec_invariant) (auto intro: counter_inv_init counter_inv_step)

lemma counter_inv_nonneg: "counter_inv s \<Longrightarrow> 0 \<le> wg s"
  using pending_nonneg [of s]
  by (cases "mainpc s") (auto simp: counter_inv_def phase_ok_def pending_def split: sum.splits)

lemma counter_inv_zero:
  assumes "counter_inv s" and "disp s \<noteq> NotStarted"
  shows "wg s = 0 \<longleftrightarrow> drained s"
proof -
  from assms have "mainpc s \<noteq> Main_Add" by (auto simp: counter_inv_def phase_ok_def)
  with assms(1) have "wg s = pending s" by (simp add: counter_inv_def)
  then show ?thesis by (simp add: pending_zero)
qed

lemma counter_inv_waited:
  assumes "counter_inv s" and "waited (mainpc s)"
  shows "wg s = 0 \<and> disp s \<noteq> NotStarted"
  using assms
  by (cases "mainpc s") (auto simp: counter_inv_def phase_ok_def split: sum.splits)


section \<open>Sends come after their increments\<close>

lemma adds_by_snoc: "adds_by a (h @ [x]) = adds_by a h + (if x = WgAdd a then 1 else 0)"
  by (simp add: adds_by_def)

lemma sends_by_snoc: "sends_by a (h @ [x]) = sends_by a h + (if sender x = Some a then 1 else 0)"
  by (simp add: sends_by_def)

lemma dones_by_snoc: "dones_by a (h @ [x]) = dones_by a h + (if x = WgDone a then 1 else 0)"
  by (simp add: dones_by_def)

lemma length_filter_rev: "length (filter P (rev h)) = length (filter P h)"
  by (induction h) auto

lemma sends_by_rev: "sends_by a (rev h) = sends_by a h"
  by (simp add: sends_by_def length_filter_rev)

lemma adds_by_rev: "adds_by a (rev h) = adds_by a h"
  by (simp add: adds_by_def length_filter_rev)

lemma sends_covered_snoc:
  "sends_covered P (h @ [x]) =
    ((case sender x of
        None \<Rightarrow> True
      | Some a \<Rightarrow> (if P a then sends_by a h < adds_by a h else True))
     \<and> sends_covered P h)"
  by (simp add: sends_covered_def sends_by_rev adds_by_rev split: option.splits)

lemmas history_snoc = adds_by_snoc sends_by_snoc dones_by_snoc sends_covered_snoc

lemma credit_inv_init: "credit_inv (init t0)"
  by (simp add: credit_inv_def credit_ok_def init_def adds_by_def sends_by_def sends_covered_def)

lemma credit_ok_main:
  assumes "credit_ok s j" and "step_main E s = Some s'"
  shows "credit_ok s' j"
  using assms
  by (cases "mainpc s")
     (auto simp: credit_ok_def step_main_def wg_Add_def history_snoc split: option.splits if_splits)

lemma covered_main:
  assumes "sends_covered is_worker (history s)" and "step_main E s = Some s'"
  shows "sends_covered is_worker (history s')"
  using assms
  by (cases "mainpc s")
     (auto simp: step_main_def wg_Add_def history_snoc split: option.splits if_splits)

lemma credit_ok_select:
  assumes "credit_ok s j"
    and "step_select_scan s = Some s' \<or> step_select_fetch s = Some s' \<or> step_select_resp s = Some s'"
  shows "credit_ok s' j \<and> history s' = history s"
  using assms
  by (cases "disp s")
     (auto simp: credit_ok_def step_select_scan_def step_select_fetch_def step_select_resp_def
           split: list.splits)

lemma credit_ok_disp:
  assumes "credit_ok s j" and "step_disp s = Some s'"
  shows "credit_ok s' j"
  using assms
  by (cases "disp s")
     (auto simp: credit_ok_def step_disp_def wg_Done_def panic_def history_snoc nth_append
           split: if_splits)

lemma covered_disp:
  assumes "sends_covered is_worker (history s)" and "step_disp s = Some s'"
  shows "sends_covered is_worker (history s')"
  using assms
  by (cases "disp s")
     (auto simp: step_disp_def wg_Done_def panic_def history_snoc split: if_splits)

lemmas worker_step_defs = step_worker_def panic_def set_worker_def wg_Add_def wg_Done_def
  send_scan_def send_fetch_def send_resp_def

lemma credit_ok_worker:
  assumes inv: "credit_ok s j" and st: "step_worker E next i s = Some s'"
  shows "credit_ok s' j"
proof -
  from worker_step_active [OF st] have i: "i < length (workers s)" by simp
  show ?thesis
  proof (cases "workers s ! i")
    case (ScanList k)
    with st i inv show ?thesis
      by (auto simp: credit_ok_def worker_step_defs nth_list_update
            split: list_resp.splits keys_field.splits if_splits)
  next
    case (ScanRange k sks)
    with st i inv show ?thesis
      by (auto simp: credit_ok_def worker_step_defs nth_list_update history_snoc
            split: list.splits val.splits if_splits)
  next
    case (ScanSend k kd c' sks)
    with st i inv show ?thesis
      by (auto simp: credit_ok_def worker_step_defs nth_list_update history_snoc
            split: kind.splits if_splits)
  next
    case (FetchRead k)
    with st i inv show ?thesis
      by (auto simp: credit_ok_def worker_step_defs nth_list_update history_snoc
            split: fetch_outcome.splits if_splits)
  next
    case (FetchAdd k t)
    with st i inv show ?thesis
      by (auto simp: credit_ok_def worker_step_defs nth_list_update history_snoc split: if_splits)
  next
    case (FetchSend k t)
    with st i inv show ?thesis
      by (auto simp: credit_ok_def worker_step_defs nth_list_update history_snoc split: if_splits)
  next
    case (FetchDefer k)
    with st i inv show ?thesis
      by (auto simp: credit_ok_def worker_step_defs nth_list_update history_snoc split: if_splits)
  next
    case (Finished kd k)
    with st i show ?thesis by (simp add: step_worker_def)
  qed
qed

lemma covered_worker:
  assumes inv: "credit_ok s i" and cov: "sends_covered is_worker (history s)"
    and st: "step_worker E next i s = Some s'"
  shows "sends_covered is_worker (history s')"
proof -
  from worker_step_active [OF st] have i: "i < length (workers s)" by simp
  show ?thesis
  proof (cases "workers s ! i")
    case (ScanList k)
    with st i cov show ?thesis
      by (auto simp: worker_step_defs split: list_resp.splits keys_field.splits if_splits)
  next
    case (ScanRange k sks)
    with st i cov show ?thesis
      by (auto simp: worker_step_defs history_snoc split: list.splits val.splits if_splits)
  next
    case (ScanSend k kd c' sks)
    with st i inv cov show ?thesis
      by (auto simp: credit_ok_def worker_step_defs history_snoc split: kind.splits if_splits)
  next
    case (FetchRead k)
    with st i cov show ?thesis
      by (auto simp: worker_step_defs history_snoc split: fetch_outcome.splits if_splits)
  next
    case (FetchAdd k t)
    with st i cov show ?thesis
      by (auto simp: worker_step_defs history_snoc split: if_splits)
  next
    case (FetchSend k t)
    with st i inv cov show ?thesis
      by (auto simp: credit_ok_def worker_step_defs history_snoc split: if_splits)
  next
    case (FetchDefer k)
    with st i cov show ?thesis
      by (auto simp: worker_step_defs history_snoc split: if_splits)
  next
    case (Finished kd k)
    with st i show ?thesis by (simp add: step_worker_def)
  qed
qed

lemma credit_inv_step:
  assumes inv: "credit_inv s" and st: "step E next ev s = Some s'"
  shows "credit_inv s'"
proof -
  from inv have ok: "\<And>j. credit_ok s j" and cov: "sends_covered is_worker (history s)"
    by (simp_all add: credit_inv_def)
  from st have np: "panicked s = None" by (auto simp: step_def split: if_splits)
  show ?thesis
  proof (cases ev)
    case EvMain
    with st np have "step_main E s = Some s'" by (simp add: step_def)
    with ok cov show ?thesis
      unfolding credit_inv_def by (blast intro: credit_ok_main covered_main)
  next
    case EvSelectScan
    with st np have "step_select_scan s = Some s'" by (simp add: step_def)
    with ok cov show ?thesis
      unfolding credit_inv_def using credit_ok_select [of s _ s'] by auto
  next
    case EvSelectFetch
    with st np have "step_select_fetch s = Some s'" by (simp add: step_def)
    with ok cov show ?thesis
      unfolding credit_inv_def using credit_ok_select [of s _ s'] by auto
  next
    case EvSelectResp
    with st np have "step_select_resp s = Some s'" by (simp add: step_def)
    with ok cov show ?thesis
      unfolding credit_inv_def using credit_ok_select [of s _ s'] by auto
  next
    case EvDisp
    with st np have "step_disp s = Some s'" by (simp add: step_def)
    with ok cov show ?thesis
      unfolding credit_inv_def by (blast intro: credit_ok_disp covered_disp)
  next
    case (EvWorker i)
    with st np have "step_worker E next i s = Some s'" by (simp add: step_def)
    with ok cov show ?thesis
      unfolding credit_inv_def by (blast intro: credit_ok_worker covered_worker)
  next
    case (EvTick d)
    with st np inv show ?thesis by (auto simp: step_def credit_inv_def credit_ok_def)
  qed
qed

lemma credit_inv_exec: "exec E next sched (init t0) = Some s \<Longrightarrow> credit_inv s"
  by (erule exec_invariant) (auto intro: credit_inv_init credit_inv_step)


section \<open>The counter during a run\<close>

lemma main_add_inv_step:
  assumes inv: "main_add_inv s" and st: "step E next ev s = Some s'"
  shows "main_add_inv s'"
proof (cases ev)
  case EvMain
  with assms show ?thesis
    by (cases "mainpc s")
       (auto simp: step_def main_add_inv_def step_main_def wg_Add_def history_snoc
             split: if_splits option.splits)
next
  case EvSelectScan
  with assms show ?thesis
    by (auto simp: step_def main_add_inv_def step_select_scan_def
          split: if_splits dispatcher.splits list.splits)
next
  case EvSelectFetch
  with assms show ?thesis
    by (auto simp: step_def main_add_inv_def step_select_fetch_def
          split: if_splits dispatcher.splits list.splits)
next
  case EvSelectResp
  with assms show ?thesis
    by (auto simp: step_def main_add_inv_def step_select_resp_def
          split: if_splits dispatcher.splits list.splits)
next
  case EvDisp
  with assms show ?thesis
    by (cases "disp s")
       (auto simp: step_def main_add_inv_def step_disp_def wg_Done_def panic_def history_snoc
          split: if_splits)
next
  case (EvWorker i)
  with assms have w: "step_worker E next i s = Some s'" by (auto simp: step_def split: if_splits)
  from worker_step_active [OF w] have i: "i < length (workers s)" by simp
  from w i inv show ?thesis
    by (cases "workers s ! i")
       (auto simp: main_add_inv_def worker_step_defs history_snoc
          split: if_splits list_resp.splits keys_field.splits list.splits val.splits kind.splits
                 fetch_outcome.splits)
next
  case (EvTick d)
  with assms show ?thesis by (auto simp: step_def main_add_inv_def split: if_splits)
qed

lemma main_add_inv_init: "main_add_inv (init t0)"
  by (simp add: main_add_inv_def init_def adds_by_def)

lemma main_add_inv_exec: "exec E next sched (init t0) = Some s \<Longrightarrow> main_add_inv s"
  by (erule exec_invariant) (auto intro: main_add_inv_step main_add_inv_init)

lemma started_added: "counter_inv s \<Longrightarrow> disp s \<noteq> NotStarted \<Longrightarrow> added (mainpc s)"
  by (cases "mainpc s") (auto simp: counter_inv_def phase_ok_def split: sum.splits)

text \<open>
  C1, amended. In every state a run can reach: the counter is not negative and
  \<^verbatim>\<open>wg.Done()\<close> never panics; from the start of the dispatcher on, the counter is zero if and
  only if the three channels are empty, every worker has finished and the dispatcher is
  inside none of its cases; when \<^verbatim>\<open>wg.Wait()\<close> has returned, the counter is zero and all
  that has drained; every send by a worker, of a work item or of a record, comes after a
  \<^verbatim>\<open>wg.Add(1)\<close> of that worker which no earlier send of his has used; and the caller's own
  \<^verbatim>\<open>wg.Add(1)\<close> has happened once the dispatcher runs. (The caller sends the root key before
  its \<^verbatim>\<open>wg.Add(1)\<close>: see \<open>root_sent_before_add\<close>.)
\<close>

theorem wait_group_invariant:
  assumes "exec E next sched (init t0) = Some s"
  shows "0 \<le> wg s \<and> panicked s \<noteq> Some NegativeCounter
     \<and> (disp s \<noteq> NotStarted \<longrightarrow> (wg s = 0 \<longleftrightarrow> drained s))
     \<and> (waited (mainpc s) \<longrightarrow> wg s = 0 \<and> drained s)
     \<and> sends_covered is_worker (history s)
     \<and> (disp s \<noteq> NotStarted \<longrightarrow> adds_by AMain (history s) = 1)"
proof -
  from assms have c: "counter_inv s" by (rule counter_inv_exec)
  from assms have h: "credit_inv s" by (rule credit_inv_exec)
  from assms have m: "main_add_inv s" by (rule main_add_inv_exec)
  have 1: "0 \<le> wg s" using c by (rule counter_inv_nonneg)
  have 2: "panicked s \<noteq> Some NegativeCounter" using c by (simp add: counter_inv_def)
  have 3: "disp s \<noteq> NotStarted \<longrightarrow> (wg s = 0 \<longleftrightarrow> drained s)"
    using c by (simp add: counter_inv_zero)
  have 4: "waited (mainpc s) \<longrightarrow> wg s = 0 \<and> drained s"
    using counter_inv_waited [OF c] counter_inv_zero [OF c] by blast
  have 5: "sends_covered is_worker (history s)" using h by (simp add: credit_inv_def)
  have 6: "disp s \<noteq> NotStarted \<longrightarrow> adds_by AMain (history s) = 1"
    using started_added [OF c] m by (auto simp: main_add_inv_def)
  from 1 2 3 4 5 6 show ?thesis by blast
qed

theorem wait_group_invariant_witness:
  "exec scenario False scenario_schedule (init 0) = Some scenario_final
   \<and> disp scenario_final \<noteq> NotStarted \<and> waited (mainpc scenario_final)
   \<and> wg scenario_final = 0 \<and> drained scenario_final
   \<and> panicked scenario_final \<noteq> Some NegativeCounter
   \<and> sends_covered is_worker (history scenario_final)
   \<and> adds_by AMain (history scenario_final) = 1"
proof -
  have d: "disp scenario_final \<noteq> NotStarted"
    by (simp add: scenario_final_def)
  have w: "waited (mainpc scenario_final)"
    by (simp add: scenario_final_def)
  from wait_group_invariant [OF scenario_run] d w scenario_run show ?thesis by blast
qed

text \<open>
  The claim as stated fails for the root work item: after the caller's first two steps the
  root key is in \<^verbatim>\<open>scanPool\<close>, the counter is still zero, and the send has no increment
  before it.
\<close>

theorem root_sent_before_add:
  "exec scenario False [EvMain, EvMain] (init 0) = Some scenario_enqueued
   \<and> scanPool scenario_enqueued = [''root/'']
   \<and> wg scenario_enqueued = 0
   \<and> history scenario_enqueued = [SendScan AMain ''root/'']
   \<and> \<not> sends_covered any_actor (history scenario_enqueued)"
  using scenario_enqueue_run
  by (simp add: scenario_enqueued_def sends_covered_def sends_by_def adds_by_def)

section \<open>Increments and decrements, counted\<close>









lemma step_cases:
  assumes "step E next ev s = Some s'"
  obtains (main) "step_main E s = Some s'"
    | (select) "step_select_scan s = Some s' \<or> step_select_fetch s = Some s' \<or> step_select_resp s = Some s'"
    | (disp) "step_disp s = Some s'"
    | (worker) i where "step_worker E next i s = Some s'"
    | (tick) d where "s' = s\<lparr>clock := clock s + int d\<rparr>"
  using assms by (cases ev) (auto simp: step_def split: if_splits)












section \<open>The workers and the tree\<close>

lemma walk_list_mono:
  assumes "\<And>k r. sub k = Some r \<Longrightarrow> sub' k = Some r"
  shows "walk_list sub E key sks = Some r \<Longrightarrow> walk_list sub' E key sks = Some r"
proof (induction sks arbitrary: r)
  case Nil
  then show ?case by simp
next
  case (Cons sk rest)
  from Cons.prems obtain sks where sk: "sk = VString sks"
    by (cases sk) auto
  from Cons.prems sk obtain S2 F2 where r2: "walk_list sub E key rest = Some (S2, F2)"
    by (auto split: option.splits)
  from Cons.IH [OF r2] have r2': "walk_list sub' E key rest = Some (S2, F2)" .
  show ?case
  proof (cases "HasSuffix sks ''/''")
    case True
    with Cons.prems sk r2 obtain S1 F1 where c: "sub (path_Join E key sks) = Some (S1, F1)"
      and r: "r = (S1 @ S2, F1 @ F2)"
      by (auto split: option.splits)
    from assms [OF c] True sk r2' r show ?thesis by simp
  next
    case False
    with Cons.prems sk r2 r2' show ?thesis by simp
  qed
qed

lemma walk_mono: "walk E n key = Some r \<Longrightarrow> walk E (Suc n) key = Some r"
proof (induction n arbitrary: key r)
  case 0
  then show ?case by simp
next
  case (Suc n)
  have m: "\<And>sks q. walk_list (walk E n) E key sks = Some q \<Longrightarrow> walk_list (walk E (Suc n)) E key sks = Some q"
    by (rule walk_list_mono [of "walk E n" "walk E (Suc n)"]) (rule Suc.IH)
  from Suc.prems show ?case
    apply (simp split: list_resp.splits keys_field.splits option.splits prod.splits)
    using m by fastforce+
qed


lemma wdef_unfold:
  assumes "wdef E n k"
  shows "case vault_List E k of
           ListSecret (KeysList sks) \<Rightarrow>
             ldef E n k sks \<and> wS E n k = {#k#} + lS E n k sks \<and> wF E n k = lF E n k sks
         | ListSecret KeysOther \<Rightarrow> False
         | _ \<Rightarrow> wS E n k = {#k#} \<and> wF E n k = {#}"
proof (cases n)
  case 0
  with assms show ?thesis by (simp add: wdef_def)
next
  case (Suc m)
  have m: "\<And>sks q. walk_list (walk E m) E k sks = Some q \<Longrightarrow> walk_list (walk E (Suc m)) E k sks = Some q"
    by (rule walk_list_mono [of "walk E m" "walk E (Suc m)"]) (rule walk_mono)
  show ?thesis
  proof (cases "vault_List E k")
    case (ListErr e)
    with Suc show ?thesis by (simp add: wS_def wF_def)
  next
    case ListNil
    with Suc show ?thesis by (simp add: wS_def wF_def)
  next
    case (ListSecret kf)
    show ?thesis
    proof (cases kf)
      case KeysNil
      with ListSecret Suc show ?thesis by (simp add: wS_def wF_def)
    next
      case (KeysList sks)
      with ListSecret Suc assms obtain S F where r: "walk_list (walk E m) E k sks = Some (S, F)"
        by (auto simp: wdef_def split: option.splits)
      from m [OF r] have r': "walk_list (walk E (Suc m)) E k sks = Some (S, F)" .
      from r r' KeysList ListSecret Suc show ?thesis
        by (simp add: wS_def wF_def lS_def lF_def ldef_def)
    next
      case KeysOther
      with ListSecret Suc assms show ?thesis by (simp add: wdef_def)
    qed
  qed
qed

lemma ldef_Nil: "ldef E n k [] \<and> lS E n k [] = {#} \<and> lF E n k [] = {#}"
  by (simp add: ldef_def lS_def lF_def)

lemma ldef_Cons:
  assumes "ldef E n k (sk # rest)"
  shows "case sk of
           VOther \<Rightarrow> False
         | VString sks \<Rightarrow>
             ldef E n k rest
             \<and> (if HasSuffix sks ''/''
                 then wdef E n (path_Join E k sks)
                      \<and> lS E n k (sk # rest) = wS E n (path_Join E k sks) + lS E n k rest
                      \<and> lF E n k (sk # rest) = wF E n (path_Join E k sks) + lF E n k rest
                 else lS E n k (sk # rest) = lS E n k rest
                      \<and> lF E n k (sk # rest) = {#path_Join E k sks#} + lF E n k rest)"
  using assms
  by (cases sk) (auto simp: ldef_def lS_def lF_def wdef_def wS_def wF_def split: option.splits)


lemma sum_update_split:
  fixes f :: "'a \<Rightarrow> 'b multiset"
  assumes "i < length ws"
  shows "\<exists>R. sum_list (map f ws) = f (ws ! i) + R \<and> (\<forall>w. sum_list (map f (ws[i := w])) = f w + R)"
proof -
  let ?R = "sum_list (map f (take i ws)) + sum_list (map f (drop (Suc i) ws))"
  have a: "sum_list (map f ws) = f (ws ! i) + ?R"
    by (subst id_take_nth_drop [OF assms]) simp
  have b: "sum_list (map f (ws[i := w])) = f w + ?R" for w
    by (simp add: upd_conv_take_nth_drop [OF assms])
  from a b show ?thesis by blast
qed

lemma list_all_update: "list_all P ws \<Longrightarrow> P w \<Longrightarrow> list_all P (ws[i := w])"
  by (induction ws arbitrary: i) (auto split: nat.splits)

lemma list_all_nth: "list_all P ws \<Longrightarrow> i < length ws \<Longrightarrow> P (ws ! i)"
  by (simp add: list_all_length)

lemma tree_inv_init: "tree_inv E n (init t0)"
  by (simp add: tree_inv_def init_def)

lemma tree_inv_main:
  assumes "tree_inv E n s" and "counter_inv s" and "wdef E n (root_key E)"
    and "step_main E s = Some s'"
  shows "tree_inv E n s'"
  using assms
  by (cases "mainpc s")
     (auto simp: tree_inv_def tree_ok_def SK_def FK_def step_main_def wg_Add_def root_key_def
           counter_inv_def phase_ok_def
           split: option.splits if_splits)

lemma tree_inv_select:
  assumes "tree_inv E n s"
    and "step_select_scan s = Some s' \<or> step_select_fetch s = Some s' \<or> step_select_resp s = Some s'"
  shows "tree_inv E n s'"
  using assms
  by (cases "disp s")
     (auto simp: tree_inv_def tree_ok_def SK_def FK_def
           step_select_scan_def step_select_fetch_def step_select_resp_def ac_simps
           split: list.splits if_splits)

lemma tree_inv_disp:
  assumes "tree_inv E n s" and "step_disp s = Some s'"
  shows "tree_inv E n s'"
  using assms
  by (cases "disp s")
     (auto simp: tree_inv_def tree_ok_def SK_def FK_def step_disp_def wg_Done_def panic_def
           ac_simps split: if_splits)

lemma tree_inv_worker:
  assumes inv: "tree_inv E n s" and st: "step_worker E next i s = Some s'"
  shows "tree_inv E n s'"
proof (cases "enqueued (mainpc s)")
  case False
  from worker_step_active [OF st] have i: "i < length (workers s)" by simp
  from st i have "mainpc s' = mainpc s"
    by (cases "workers s ! i")
       (auto simp: worker_step_defs
          split: if_splits list_resp.splits keys_field.splits list.splits val.splits kind.splits
                 fetch_outcome.splits)
  with False show ?thesis by (simp add: tree_inv_def)
next
  case True
  from worker_step_active [OF st] have i: "i < length (workers s)" by simp
  from inv True have ok: "list_all (wdef E n) (scanPool s)" "dok E n (disp s)"
      "list_all (wok E n) (workers s)"
    and sk: "SK E n s = wS E n (root_key E)" and fk: "FK E n s = wF E n (root_key E)"
    by (simp_all add: tree_inv_def tree_ok_def)
  from list_all_nth [OF ok(3) i] have wi: "wok E n (workers s ! i)" .
  from sum_update_split [OF i, of "cS E n"] obtain RS where
    rs: "sum_list (map (cS E n) (workers s)) = cS E n (workers s ! i) + RS"
      "\<And>w. sum_list (map (cS E n) ((workers s)[i := w])) = cS E n w + RS"
    by blast
  from sum_update_split [OF i, of "cF E n"] obtain RF where
    rf: "sum_list (map (cF E n) (workers s)) = cF E n (workers s ! i) + RF"
      "\<And>w. sum_list (map (cF E n) ((workers s)[i := w])) = cF E n w + RF"
    by blast
  note defs = tree_inv_def tree_ok_def SK_def FK_def worker_step_defs list_all_update ldef_Nil
    ac_simps
  show ?thesis
  proof (cases "workers s ! i")
    case (ScanList k)
    with wi have "wdef E n k" by simp
    from wdef_unfold [OF this] ScanList st i True ok sk fk rs rf show ?thesis
      by (auto simp: defs split: list_resp.splits keys_field.splits)
  next
    case (ScanRange k sks)
    show ?thesis
    proof (cases sks)
      case Nil
      with ScanRange st i True ok sk fk rs rf show ?thesis
        by (auto simp: defs split: if_splits)
    next
      case (Cons sk' rest)
      with ScanRange wi have "ldef E n k (sk' # rest)" by simp
      from ldef_Cons [OF this] Cons ScanRange st i True ok sk fk rs rf show ?thesis
        by (auto simp: defs split: val.splits if_splits)
    qed
  next
    case (ScanSend k kd c' sks)
    with wi st i True ok sk fk rs rf show ?thesis
      by (auto simp: defs split: kind.splits if_splits)
  next
    case (FetchRead k)
    with st i True ok sk fk rs rf show ?thesis
      by (auto simp: defs split: fetch_outcome.splits)
  next
    case (FetchAdd k t)
    with st i True ok sk fk rs rf show ?thesis
      by (auto simp: defs)
  next
    case (FetchSend k t)
    with st i True ok sk fk rs rf show ?thesis
      by (auto simp: defs split: if_splits)
  next
    case (FetchDefer k)
    with st i True ok sk fk rs rf show ?thesis
      by (auto simp: defs split: if_splits)
  next
    case (Finished kd k)
    with st i show ?thesis by (simp add: step_worker_def)
  qed
qed


section \<open>Where the records are\<close>

lemma fetched_keys_snoc: "fetched_keys (h @ [x]) = fetched_keys h @ read_key_of x"
  by (simp add: fetched_keys_def)

lemma delivered_snoc: "delivered E next (h @ [x]) = delivered E next h @ reading E next x"
  by (simp add: delivered_def)

lemma read_inv_step:
  assumes inv: "read_inv s" and st: "step E next ev s = Some s'"
  shows "read_inv s'"
  using st
proof (cases rule: step_cases)
  case main
  with inv show ?thesis
    by (cases "mainpc s")
       (auto simp: read_inv_def step_main_def wg_Add_def fetched_keys_snoc split: option.splits if_splits)
next
  case select
  with inv show ?thesis
    by (cases "disp s")
       (auto simp: read_inv_def step_select_scan_def step_select_fetch_def step_select_resp_def
           split: list.splits)
next
  case disp
  with inv show ?thesis
    by (cases "disp s")
       (auto simp: read_inv_def step_disp_def wg_Done_def panic_def fetched_keys_snoc
           split: if_splits)
next
  case (worker i)
  from worker_step_active [OF worker] have i: "i < length (workers s)" by simp
  from sum_update_split [OF i, of has_read] obtain R where
    r: "sum_list (map has_read (workers s)) = has_read (workers s ! i) + R"
      "\<And>w. sum_list (map has_read ((workers s)[i := w])) = has_read w + R"
    by blast
  from worker i inv r show ?thesis
    by (cases "workers s ! i")
       (auto simp: read_inv_def worker_step_defs fetched_keys_snoc
          split: if_splits list_resp.splits keys_field.splits list.splits val.splits kind.splits
                 fetch_outcome.splits)
next
  case (tick d)
  with inv show ?thesis by (simp add: read_inv_def)
qed

lemma read_inv_init: "read_inv (init t0)"
  by (simp add: read_inv_def init_def fetched_keys_def)

lemma read_inv_exec: "exec E next sched (init t0) = Some s \<Longrightarrow> read_inv s"
  by (erule exec_invariant) (auto intro: read_inv_step read_inv_init)

lemma tree_inv_step:
  assumes inv: "tree_inv E n s" and c: "counter_inv s" and root: "wdef E n (root_key E)"
    and st: "step E next ev s = Some s'"
  shows "tree_inv E n s'"
  using st
proof (cases rule: step_cases)
  case main
  with inv c root show ?thesis by (simp add: tree_inv_main)
next
  case select
  with inv show ?thesis by (rule tree_inv_select)
next
  case disp
  with inv show ?thesis by (rule tree_inv_disp)
next
  case (worker i)
  with inv show ?thesis by (rule tree_inv_worker)
next
  case (tick d)
  with inv show ?thesis by (auto simp: tree_inv_def tree_ok_def SK_def FK_def split: if_splits)
qed

lemma tree_inv_exec:
  assumes "exec E next sched (init t0) = Some s" and root: "wdef E n (root_key E)"
  shows "tree_inv E n s"
proof -
  from assms(1) have "counter_inv s \<and> tree_inv E n s"
    by (rule exec_invariant)
       (auto intro: tree_inv_init tree_inv_step counter_inv_init counter_inv_step root)
  then show ?thesis by simp
qed


lemma select_step_waiting:
  assumes inv: "counter_inv s"
    and st: "step_select_scan s = Some s' \<or> step_select_fetch s = Some s' \<or> step_select_resp s = Some s'"
  shows "mainpc s = Main_Wait"
proof -
  from st have d: "disp s = Select"
    and ne: "scanPool s \<noteq> [] \<or> keyPoolChan s \<noteq> [] \<or> respChan s \<noteq> []"
    by (cases "disp s";
        auto simp: step_select_scan_def step_select_fetch_def step_select_resp_def split: list.splits)+
  from ne have "\<not> drained s" by (auto simp: drained_def)
  then have "pending s \<noteq> 0" by (simp add: pending_zero)
  with pending_nonneg [of s] have "0 < pending s" by linarith
  with inv d show ?thesis by (simp add: busy_is_waiting)
qed

lemma disp_step_waiting:
  assumes inv: "counter_inv s" and st: "step_disp s = Some s'"
  shows "mainpc s = Main_Wait"
proof -
  from st have h: "held (disp s) = 1"
    by (cases "disp s") (auto simp: step_disp_def)
  then have "0 < pending s"
    unfolding pending_def using sum_weight_nonneg [of "workers s"] by simp
  moreover from h have "disp s \<noteq> NotStarted" by auto
  ultimately show ?thesis using inv by (simp add: busy_is_waiting)
qed

lemma all_finished_carrying: "list_all finished ws \<Longrightarrow> sum_list (map carrying ws) = {#}"
proof (induction ws)
  case Nil
  then show ?case by simp
next
  case (Cons w ws)
  then show ?case by (cases w) auto
qed

lemma rec_inv_wait: "mainpc s = Main_Wait \<Longrightarrow> rec_inv E next s = flow E next s"
  by (simp add: rec_inv_def)

lemma rec_inv_init: "rec_inv E next (init t0)"
  by (simp add: rec_inv_def flow_def init_def delivered_def)

lemma rec_inv_main:
  assumes inv: "rec_inv E next s" and c: "counter_inv s" and st: "step_main E s = Some s'"
  shows "rec_inv E next s'"
proof (cases "mainpc s")
  case Main_Sort
  with c have "wg s = 0" "wg s = pending s" "disp s = Select"
    by (auto simp: counter_inv_def phase_ok_def)
  then have dr: "drained s" by (simp add: pending_zero [symmetric])
  then have e: "respChan s = []" "sum_list (map carrying (workers s)) = {#}"
    by (simp_all add: drained_def all_finished_carrying)
  from inv Main_Sort have "flow E next s" by (simp add: rec_inv_def)
  with e \<open>disp s = Select\<close> have "mset (resp s) = mset (delivered E next (history s))"
    by (simp add: flow_def)
  with st Main_Sort show ?thesis
    by (auto simp: rec_inv_def sorted_stage_def step_main_def)
next
  case Main_Return
  with inv st show ?thesis
    by (auto simp: rec_inv_def sorted_stage_def step_main_def split: if_splits)
next
  case Main_Go
  with c have "disp s = NotStarted" by (auto simp: counter_inv_def phase_ok_def)
  with inv st Main_Go show ?thesis
    by (auto simp: rec_inv_def flow_def step_main_def)
qed (use inv st in \<open>auto simp: rec_inv_def flow_def step_main_def wg_Add_def delivered_snoc
      split: option.splits if_splits\<close>)

lemma flow_select:
  assumes "flow E next s"
    and "step_select_scan s = Some s' \<or> step_select_fetch s = Some s' \<or> step_select_resp s = Some s'"
  shows "flow E next s' \<and> mainpc s' = mainpc s"
  using assms
  by (cases "disp s")
     (auto simp: flow_def step_select_scan_def step_select_fetch_def step_select_resp_def
           split: list.splits)

lemma flow_disp:
  assumes "flow E next s" and "step_disp s = Some s'"
  shows "flow E next s' \<and> mainpc s' = mainpc s"
  using assms
  by (cases "disp s")
     (auto simp: flow_def step_disp_def wg_Done_def panic_def delivered_snoc split: if_splits)

lemma flow_worker:
  assumes inv: "flow E next s" and st: "step_worker E next i s = Some s'"
  shows "flow E next s' \<and> mainpc s' = mainpc s"
proof -
  from worker_step_active [OF st] have i: "i < length (workers s)" by simp
  from sum_update_split [OF i, of carrying] obtain R where
    r: "sum_list (map carrying (workers s)) = carrying (workers s ! i) + R"
      "\<And>w. sum_list (map carrying ((workers s)[i := w])) = carrying w + R"
    by blast
  from st i inv r show ?thesis
    by (cases "workers s ! i")
       (auto simp: flow_def worker_step_defs delivered_snoc produced_def
          split: if_splits list_resp.splits keys_field.splits list.splits val.splits kind.splits
                 fetch_outcome.splits)
qed

lemma rec_inv_step:
  assumes inv: "rec_inv E next s" and c: "counter_inv s" and st: "step E next ev s = Some s'"
  shows "rec_inv E next s'"
  using st
proof (cases rule: step_cases)
  case main
  with inv c show ?thesis by (simp add: rec_inv_main)
next
  case select
  from select_step_waiting [OF c select] have w: "mainpc s = Main_Wait" .
  with inv flow_select [OF _ select] show ?thesis by (simp add: rec_inv_def)
next
  case disp
  from disp_step_waiting [OF c disp] have w: "mainpc s = Main_Wait" .
  with inv flow_disp [OF _ disp] show ?thesis by (simp add: rec_inv_def)
next
  case (worker i)
  from worker_step_waiting [OF c worker] have w: "mainpc s = Main_Wait" .
  with inv flow_worker [OF _ worker] show ?thesis by (simp add: rec_inv_def)
next
  case (tick d)
  with inv show ?thesis
    by (cases "mainpc s") (auto simp: rec_inv_def flow_def sorted_stage_def split: sum.splits)
qed

lemma rec_inv_exec:
  assumes "exec E next sched (init t0) = Some s"
  shows "rec_inv E next s"
proof -
  from assms(1) have "counter_inv s \<and> rec_inv E next s"
    by (rule exec_invariant)
       (auto intro: rec_inv_init rec_inv_step counter_inv_init counter_inv_step)
  then show ?thesis by simp
qed


section \<open>The short sorter keeps the promise\<close>

lemma Swap_adjacent: "length a = j \<Longrightarrow> Swap (Suc j) j (a @ u # v # b) = a @ v # u # b"
  by (simp add: Swap_def list_update_append nth_append)

lemma sink_append: "length a = j \<Longrightarrow> sink lt j (a @ x # b) = rev (ins lt x (rev a)) @ b"
proof (induction j arbitrary: a x b)
  case 0
  then show ?case by simp
next
  case (Suc j)
  then obtain a' u where a: "a = a' @ [u]" and l: "length a' = j"
    by (cases a rule: rev_cases) auto
  have n1: "(a @ x # b) ! Suc j = x" using Suc.prems by (simp add: nth_append)
  have n2: "(a @ x # b) ! j = u" using a l by (simp add: nth_append)
  show ?case
  proof (cases "lt x u")
    case True
    have "sink lt (Suc j) (a @ x # b) = sink lt j (Swap (Suc j) j (a' @ u # x # b))"
      using True n1 n2 a by simp
    also have "\<dots> = sink lt j (a' @ x # u # b)" using l by (simp add: Swap_adjacent)
    also have "\<dots> = rev (ins lt x (rev a')) @ u # b" using l by (rule Suc.IH)
    finally show ?thesis using True a by simp
  next
    case False
    then show ?thesis using n1 n2 a by simp
  qed
qed

lemma length_ins: "length (ins lt x rs) = Suc (length rs)"
  by (induction rs) auto

lemma isr_snoc: "isr lt (xs @ [x]) = ins lt x (isr lt xs)"
  by (simp add: isr_def)

lemma length_isr: "length (isr lt xs) = length xs"
  by (induction xs rule: rev_induct) (auto simp: isr_snoc length_ins isr_def)

lemma insertion_prefix:
  "k < length xs \<Longrightarrow>
   foldl (\<lambda>ys i. sink lt i ys) xs [1..<Suc k] = rev (isr lt (take (Suc k) xs)) @ drop (Suc k) xs"
proof (induction k)
  case 0
  then show ?case by (cases xs) (simp_all add: isr_def)
next
  case (Suc k)
  then have k: "k < length xs" and True: "Suc k < length xs" by simp_all
  have d: "drop (Suc k) xs = xs ! Suc k # drop (Suc (Suc k)) xs"
    using True by (simp add: Cons_nth_drop_Suc)
  have t: "take (Suc (Suc k)) xs = take (Suc k) xs @ [xs ! Suc k]"
    using True by (simp add: take_Suc_conv_app_nth)
  have len: "length (rev (isr lt (take (Suc k) xs))) = Suc k"
    using True by (simp add: length_isr)
  have "foldl (\<lambda>ys i. sink lt i ys) xs [1..<Suc (Suc k)]
      = sink lt (Suc k) (foldl (\<lambda>ys i. sink lt i ys) xs [1..<Suc k])"
    by simp
  also have "\<dots> = sink lt (Suc k) (rev (isr lt (take (Suc k) xs)) @ xs ! Suc k # drop (Suc (Suc k)) xs)"
    using Suc.IH [OF k] d by simp
  also have "\<dots> = rev (ins lt (xs ! Suc k) (rev (rev (isr lt (take (Suc k) xs))))) @ drop (Suc (Suc k)) xs"
    using len by (rule sink_append)
  finally show ?case using t by (simp add: isr_snoc)
qed

lemma insertionSort_isr: "insertionSort lt xs = rev (isr lt xs)"
proof (cases xs rule: rev_cases)
  case Nil
  then show ?thesis by (simp add: insertionSort_def isr_def)
next
  case (snoc ys y)
  then have "length ys < length xs" by simp
  from insertion_prefix [OF this, of lt] snoc show ?thesis
    by (simp add: insertionSort_def)
qed

lemma mset_ins: "mset (ins lt x rs) = add_mset x (mset rs)"
  by (induction rs) auto

lemma mset_isr: "mset (isr lt xs) = mset xs"
  by (induction xs rule: rev_induct) (auto simp: isr_snoc mset_ins isr_def)

lemma set_ins: "set (ins lt x rs) = insert x (set rs)"
  by (induction rs) auto

lemma sorted_ins:
  fixes f :: "'a \<Rightarrow> 'b::linorder"
  assumes "sorted (rev (map f rs))"
  shows "sorted (rev (map f (ins (\<lambda>a b. f a < f b) x rs)))"
  using assms
proof (induction rs)
  case Nil
  then show ?case by simp
next
  case (Cons r rs)
  then show ?case
    by (auto simp: sorted_append set_ins)
qed

lemma sorted_isr:
  fixes f :: "'a \<Rightarrow> 'b::linorder"
  shows "sorted (rev (map f (isr (\<lambda>a b. f a < f b) xs)))"
  by (induction xs rule: rev_induct) (auto simp: isr_snoc sorted_ins isr_def)

lemma shell_steps:
  assumes "\<forall>i\<in>set is. i < length xs \<and> g i < length xs"
  shows "mset (foldl (\<lambda>ys i. if c ys i then Swap i (g i) ys else ys) xs is) = mset xs
       \<and> length (foldl (\<lambda>ys i. if c ys i then Swap i (g i) ys else ys) xs is) = length xs"
  using assms
proof (induction "is" arbitrary: xs)
  case Nil
  then show ?case by simp
next
  case (Cons i "is")
  let ?ys = "if c xs i then Swap i (g i) xs else xs"
  from Cons.prems have b: "i < length xs" "g i < length xs" by simp_all
  have l: "length ?ys = length xs" by (simp add: Swap_def)
  have m: "mset ?ys = mset xs" using b by (simp add: Swap_def mset_swap)
  from Cons.prems l have "\<forall>j\<in>set is. j < length ?ys \<and> g j < length ?ys" by simp
  from Cons.IH [OF this] l m show ?case by simp
qed

lemma mset_shellPass: "mset (shellPass lt xs) = mset xs"
proof -
  have "\<forall>i\<in>set [6..<length xs]. i < length xs \<and> i - 6 < length xs" by auto
  from shell_steps [OF this, of "\<lambda>ys i. lt (ys ! i) (ys ! (i - 6))"] show ?thesis
    by (simp add: shellPass_def)
qed

lemma mset_sort_short: "mset (sort_short lt xs) = mset xs"
  by (simp add: sort_short_def insertionSort_isr mset_isr mset_shellPass)

lemma sorted_sort_short:
  fixes f :: "'a \<Rightarrow> 'b::linorder"
  shows "sorted (map f (sort_short (\<lambda>a b. f a < f b) xs))"
proof (cases "1 < length xs")
  case True
  then show ?thesis
    using sorted_isr [of f "shellPass (\<lambda>a b. f a < f b) xs"]
    by (simp add: sort_short_def insertionSort_isr rev_map)
next
  case False
  then have "xs = [] \<or> (\<exists>x. xs = [x])"
    by (cases xs) auto
  then show ?thesis
    by (auto simp: sort_short_def)
qed

lemma Less_name_key: "Less lower = (\<lambda>a b. name_key lower a < name_key lower b)"
  by (simp add: Less_def name_key_def fun_eq_iff)

lemma scenario_sort_permutes: "sort_permutes scenario"
  by (simp add: sort_permutes_def scenario_def mset_sort_short)

lemma scenario_sort_sorts: "sort_sorts scenario"
  unfolding sort_sorts_def by (simp add: scenario_def Less_name_key sorted_sort_short)


section \<open>The workers spawned are the keys of the tree\<close>

lemma finished_sums:
  "list_all finished ws \<Longrightarrow>
     sum_list (map (cS E n) ws) = mset (scan_keys ws)
     \<and> sum_list (map (cF E n) ws) = mset (fetch_keys ws)
     \<and> sum_list (map has_read ws) = mset (fetch_keys ws)"
proof (induction ws)
  case Nil
  then show ?case by (simp add: scan_keys_def fetch_keys_def)
next
  case (Cons w ws)
  then have f: "finished w" and IH: "sum_list (map (cS E n) ws) = mset (scan_keys ws)"
      "sum_list (map (cF E n) ws) = mset (fetch_keys ws)"
      "sum_list (map has_read ws) = mset (fetch_keys ws)"
    by simp_all
  from f obtain kd k where w: "w = Finished kd k" by (cases w) auto
  show ?case
  proof (cases kd)
    case Scan
    with w IH show ?thesis by (simp add: scan_keys_def fetch_keys_def)
  next
    case Fetch
    with w IH show ?thesis by (simp add: scan_keys_def fetch_keys_def)
  qed
qed

lemma waited_drained:
  assumes "exec E next sched (init t0) = Some s" and "waited (mainpc s)"
  shows "drained s"
proof -
  from assms(1) have c: "counter_inv s" by (rule counter_inv_exec)
  from counter_inv_waited [OF c assms(2)] counter_inv_zero [OF c] show ?thesis by blast
qed

lemma drained_disp: "drained s \<Longrightarrow> dS E n (disp s) = {#} \<and> dF E n (disp s) = {#}"
  by (cases "disp s") (auto simp: drained_def)

lemma waited_enqueued: "waited pc \<Longrightarrow> enqueued pc"
  by (cases pc rule: waited.cases) auto

lemma tree_keys_at_end:
  assumes run: "exec E next sched (init t0) = Some s"
    and tree: "walk E n (root_key E) = Some (S, F)"
    and fin: "waited (mainpc s)"
  shows "mset (scan_keys (workers s)) = mset S
     \<and> mset (fetch_keys (workers s)) = mset F
     \<and> length (scan_keys (workers s)) = length S
     \<and> length (fetch_keys (workers s)) = length F
     \<and> mset (fetched_keys (history s)) = mset F
     \<and> (distinct S \<longrightarrow> distinct (scan_keys (workers s)))
     \<and> (distinct F \<longrightarrow> distinct (fetch_keys (workers s)) \<and> distinct (fetched_keys (history s)))"
proof -
  from tree have root: "wdef E n (root_key E)" by (simp add: wdef_def)
  from tree have w: "wS E n (root_key E) = mset S" "wF E n (root_key E) = mset F"
    by (simp_all add: wS_def wF_def)
  from tree_inv_exec [OF run root] fin w
  have sk: "SK E n s = mset S" and fk: "FK E n s = mset F"
    by (simp_all add: tree_inv_def waited_enqueued)
  from waited_drained [OF run fin] have dr: "drained s" .
  then have e: "scanPool s = []" "keyPoolChan s = []" and f: "list_all finished (workers s)"
    by (simp_all add: drained_def)
  note fs = finished_sums [OF f, of E n]
  note dd = drained_disp [OF dr, of E n]
  have "SK E n s = mset (scan_keys (workers s))"
    unfolding SK_def by (simp add: e fs dd)
  with sk have 1: "mset (scan_keys (workers s)) = mset S" by simp
  have "FK E n s = mset (fetch_keys (workers s))"
    unfolding FK_def by (simp add: e fs dd)
  with fk have 2: "mset (fetch_keys (workers s)) = mset F" by simp
  have "mset (fetched_keys (history s)) = mset (fetch_keys (workers s))"
    using read_inv_exec [OF run] by (simp add: read_inv_def fs)
  with 2 have 3: "mset (fetched_keys (history s)) = mset F" by simp
  from 1 have 4: "length (scan_keys (workers s)) = length S" by (rule mset_eq_length)
  from 2 have 5: "length (fetch_keys (workers s)) = length F" by (rule mset_eq_length)
  have 6: "distinct S \<longrightarrow> distinct (scan_keys (workers s))"
    using mset_eq_imp_distinct_iff [OF 1] by simp
  have 7: "distinct F \<longrightarrow> distinct (fetch_keys (workers s)) \<and> distinct (fetched_keys (history s))"
    using mset_eq_imp_distinct_iff [OF 2] mset_eq_imp_distinct_iff [OF 3] by simp
  from 1 2 3 4 5 6 7 show ?thesis by blast
qed


text \<open>
  C2. Let the namespace under the root prefix be a finite tree whose listings are
  well-formed, with the directory keys \<open>S\<close> (the root first, so \<open>M + 1\<close> keys) and the leaf
  keys \<open>F\<close> (\<open>N\<close> keys). When \<^verbatim>\<open>wg.Wait()\<close> has returned, the scan workers spawned have
  exactly the keys \<open>S\<close> and the fetch workers spawned exactly the keys \<open>F\<close>, each key as often
  as the tree has it: there are \<open>M + 1\<close> scan workers and \<open>N\<close> fetch workers, the keys read
  are the keys \<open>F\<close>, each read once, and where the tree has no key twice, no key has two
  workers or two reads.
\<close>

theorem workers_match_tree:
  assumes run: "exec E next sched (init t0) = Some s"
    and tree: "walk E n (root_key E) = Some (S, F)"
    and fin: "waited (mainpc s)"
  shows "mset (scan_keys (workers s)) = mset S
     \<and> mset (fetch_keys (workers s)) = mset F
     \<and> length (scan_keys (workers s)) = length S
     \<and> length (fetch_keys (workers s)) = length F
     \<and> mset (fetched_keys (history s)) = mset F
     \<and> (distinct S \<longrightarrow> distinct (scan_keys (workers s)))
     \<and> (distinct F \<longrightarrow> distinct (fetch_keys (workers s)) \<and> distinct (fetched_keys (history s)))"
  using assms by (rule tree_keys_at_end)

theorem workers_match_tree_witness:
  "exec scenario False scenario_schedule (init 0) = Some scenario_final
   \<and> walk scenario 3 (root_key scenario) = Some ([''root/'', ''root/a''], [''root/a/c'', ''root/b''])
   \<and> waited (mainpc scenario_final)
   \<and> distinct [''root/'', ''root/a''] \<and> distinct [''root/a/c'', ''root/b'']
   \<and> mset (scan_keys (workers scenario_final)) = mset [''root/'', ''root/a'']
   \<and> mset (fetch_keys (workers scenario_final)) = mset [''root/a/c'', ''root/b'']
   \<and> length (scan_keys (workers scenario_final)) = 2
   \<and> length (fetch_keys (workers scenario_final)) = 2
   \<and> mset (fetched_keys (history scenario_final)) = mset [''root/a/c'', ''root/b'']
   \<and> distinct (scan_keys (workers scenario_final))
   \<and> distinct (fetch_keys (workers scenario_final))
   \<and> distinct (fetched_keys (history scenario_final))"
proof -
  have t: "walk scenario 3 (root_key scenario) = Some ([''root/'', ''root/a''], [''root/a/c'', ''root/b''])"
    by code_simp
  have w: "waited (mainpc scenario_final)"
    by (simp add: scenario_final_def)
  have d: "distinct [''root/'', ''root/a'']" "distinct [''root/a/c'', ''root/b'']"
    by simp_all
  from workers_match_tree [OF scenario_run t w] d t w scenario_run show ?thesis by simp
qed

section \<open>What a run returns\<close>

lemma exec_invariant_within:
  assumes step: "\<And>s ev s'. ev \<in> A \<Longrightarrow> P s \<Longrightarrow> step E next ev s = Some s' \<Longrightarrow> P s'"
  shows "exec E next sched s0 = Some s \<Longrightarrow> P s0 \<Longrightarrow> set sched \<subseteq> A \<Longrightarrow> P s"
proof (induction sched arbitrary: s0)
  case Nil
  then show ?case by simp
next
  case (Cons ev evs)
  then obtain s1 where s1: "step E next ev s0 = Some s1" and r: "exec E next evs s1 = Some s"
    by (auto split: option.splits)
  from Cons.prems(3) have "ev \<in> A" and sub: "set evs \<subseteq> A" by simp_all
  from step [OF \<open>ev \<in> A\<close> Cons.prems(2) s1] have "P s1" .
  from Cons.IH [OF r this sub] show ?case .
qed

lemma step_cases_ev:
  assumes "step E next ev s = Some s'"
  obtains (main) "ev = EvMain" and "step_main E s = Some s'"
    | (select) "no_tick ev" and
        "step_select_scan s = Some s' \<or> step_select_fetch s = Some s' \<or> step_select_resp s = Some s'"
    | (disp) "ev = EvDisp" and "step_disp s = Some s'"
    | (worker) i where "ev = EvWorker i" and "step_worker E next i s = Some s'"
    | (tick) d where "ev = EvTick d" and "s' = s\<lparr>clock := clock s + int d\<rparr>"
  using assms by (cases ev) (auto simp: step_def split: if_splits)

lemma step_keeps_mainpc:
  assumes "step E next ev s = Some s'" and "ev \<noteq> EvMain"
  shows "mainpc s' = mainpc s"
proof (cases ev)
  case EvMain
  with assms show ?thesis by simp
next
  case EvSelectScan
  with assms show ?thesis
    by (auto simp: step_def step_select_scan_def split: if_splits dispatcher.splits list.splits)
next
  case EvSelectFetch
  with assms show ?thesis
    by (auto simp: step_def step_select_fetch_def split: if_splits dispatcher.splits list.splits)
next
  case EvSelectResp
  with assms show ?thesis
    by (auto simp: step_def step_select_resp_def split: if_splits dispatcher.splits list.splits)
next
  case EvDisp
  with assms show ?thesis
    by (cases "disp s") (auto simp: step_def step_disp_def wg_Done_def panic_def split: if_splits)
next
  case (EvWorker i)
  with assms have w: "step_worker E next i s = Some s'" by (auto simp: step_def split: if_splits)
  from worker_step_active [OF w] have i: "i < length (workers s)" by simp
  from w i show ?thesis
    by (cases "workers s ! i")
       (auto simp: worker_step_defs
          split: if_splits list_resp.splits keys_field.splits list.splits val.splits kind.splits
                 fetch_outcome.splits)
next
  case (EvTick d)
  with assms show ?thesis by (auto simp: step_def split: if_splits)
qed

lemma client_inv_step:
  assumes inv: "client_inv E s" and st: "step E next ev s = Some s'"
  shows "client_inv E s'"
proof (cases "ev = EvMain")
  case True
  with st have "step_main E s = Some s'" by (auto simp: step_def split: if_splits)
  with inv show ?thesis
    by (cases "mainpc s")
       (auto simp: client_inv_def step_main_def wg_Add_def split: option.splits if_splits)
next
  case False
  from step_keeps_mainpc [OF st False] inv show ?thesis by (simp add: client_inv_def)
qed

lemma client_inv_init: "client_inv E (init t0)"
  by (simp add: client_inv_def init_def)

lemma client_inv_exec: "exec E next sched (init t0) = Some s \<Longrightarrow> client_inv E s"
  by (erule exec_invariant) (auto intro: client_inv_step client_inv_init)

lemma clock_inv_step:
  assumes inv: "clock_inv t0 s" and st: "step E next ev s = Some s'" and nt: "no_tick ev"
  shows "clock_inv t0 s'"
  using st
proof (cases rule: step_cases_ev)
  case main
  with inv show ?thesis
    by (cases "mainpc s")
       (auto simp: clock_inv_def step_main_def wg_Add_def split: option.splits if_splits)
next
  case select
  with inv show ?thesis
    by (cases "disp s")
       (auto simp: clock_inv_def step_select_scan_def step_select_fetch_def step_select_resp_def
           split: list.splits)
next
  case disp
  with inv show ?thesis
    by (cases "disp s")
       (auto simp: clock_inv_def step_disp_def wg_Done_def panic_def split: if_splits)
next
  case (worker i)
  from worker_step_active [OF worker(2)] have i: "i < length (workers s)" by simp
  from worker(2) i inv show ?thesis
    by (cases "workers s ! i")
       (auto simp: clock_inv_def worker_step_defs
          split: if_splits list_resp.splits keys_field.splits list.splits val.splits kind.splits
                 fetch_outcome.splits)
next
  case (tick d)
  with nt show ?thesis by simp
qed

lemma clock_inv_exec:
  assumes "exec E next sched (init t0) = Some s" and "tickfree sched"
  shows "clock_inv t0 s"
proof -
  have i: "clock_inv t0 (init t0)" by (simp add: clock_inv_def init_def)
  from assms(2) have sub: "set sched \<subseteq> {ev. no_tick ev}"
    by (auto simp: tickfree_def list_all_iff)
  show ?thesis
    by (rule exec_invariant_within [where A = "{ev. no_tick ev}" and P = "clock_inv t0", OF _ assms(1) i sub])
       (auto intro: clock_inv_step)
qed

lemma returned_result:
  assumes "getSecretsFromVault E next t0 sched = Some (Inr r)"
  obtains s r0 where "exec E next sched (init t0) = Some s"
    and "mainpc s = Main_Returned (Inr r)"
    and "r = sort_Sort E (Less (unicode_ToLower E)) r0"
    and "mset r0 = mset (delivered E next (history s))"
proof -
  from assms obtain s where e: "exec E next sched (init t0) = Some s"
    and m: "mainpc s = Main_Returned (Inr r)"
    by (auto simp: getSecretsFromVault_def split: option.splits mainpc.splits)
  from rec_inv_exec [OF e] m obtain r0 where "r = sort_Sort E (Less (unicode_ToLower E)) r0"
    and "mset r0 = mset (delivered E next (history s))"
    by (auto simp: rec_inv_def sorted_stage_def)
  with e m that show ?thesis by blast
qed

lemma returned_state:
  assumes "getSecretsFromVault E next t0 sched = Some res"
  obtains s where "exec E next sched (init t0) = Some s" and "mainpc s = Main_Returned res"
  using assms by (auto simp: getSecretsFromVault_def split: option.splits mainpc.splits)

lemma delivered_mem:
  assumes "tok \<in> set (delivered E next h)"
  shows "\<exists>i k t. ReadClock i k t \<in> set h \<and> fetch_body E next t k = FetchDeliver tok"
proof -
  from assms obtain a where a: "a \<in> set h" and t: "tok \<in> set (reading E next a)"
    by (auto simp: delivered_def)
  from t obtain i k t where r: "a = ReadClock i k t"
    by (cases a) auto
  with t have "fetch_body E next t k = FetchDeliver tok"
    by (auto simp: produced_def split: fetch_outcome.splits)
  with a r show ?thesis by blast
qed

lemma fetch_body_deliver:
  assumes "fetch_body E next t k = FetchDeliver tok"
  shows "\<exists>d tok0. vault_Read E k = ReadSecret (Some d)
      \<and> field_loop E d (fresh_token k) = Some tok0
      \<and> GenerateCode (totp_GenerateCodeCustom E) (unicode_ToUpper E) t next tok0 = (tok, None)
      \<and> Code tok \<noteq> []"
  using assms
  by (auto simp: fetch_body_def fresh_token_def
        split: read_resp.splits option.splits prod.splits if_splits)

lemma GenerateCode_again:
  assumes "GenerateCode gen up t next tok0 = (tok, e)"
  shows "GenerateCode gen up t next tok = (tok, e) \<and> tok = tok0\<lparr>Code := Code tok\<rparr>"
  using assms by (auto simp: GenerateCode_unfold Let_def)

lemma field_case_secret:
  assumes "field_case E kv tok = Some tok'" and "fst kv \<noteq> cfg_Vault_SecretField E"
  shows "Secret tok' = Secret tok"
  using assms by (auto simp: field_case_def Let_def split: if_splits)

lemma field_loop_secret:
  assumes "field_loop E d tok = Some tok'" and "cfg_Vault_SecretField E \<notin> fst ` set d"
  shows "Secret tok' = Secret tok"
  using assms
proof (induction d arbitrary: tok)
  case Nil
  then show ?case by simp
next
  case (Cons kv d)
  from Cons.prems(1) obtain tok1 where a: "field_case E kv tok = Some tok1"
    and b: "field_loop E d tok1 = Some tok'"
    by (auto split: option.splits)
  from Cons.prems(2) have "fst kv \<noteq> cfg_Vault_SecretField E" "cfg_Vault_SecretField E \<notin> fst ` set d"
    by auto
  with field_case_secret [OF a] Cons.IH [OF b] show ?case by simp
qed

lemma ToUpper_Nil: "ToUpper up [] = []"
  by (simp add: ToUpper_def isASCII_def)

lemma no_secret_no_record:
  assumes rd: "vault_Read E k = ReadSecret (Some d)"
    and ns: "cfg_Vault_SecretField E \<notin> fst ` set d"
    and eng: "\<forall>t' opts. snd (totp_GenerateCodeCustom E [] t' opts) \<noteq> None
                       \<or> fst (totp_GenerateCodeCustom E [] t' opts) = []"
  shows "produced E next t k = []"
proof (cases "field_loop E d (fresh_token k)")
  case None
  with rd show ?thesis by (simp add: produced_def fetch_body_def fresh_token_def)
next
  case (Some tok)
  from field_loop_secret [OF Some ns] have s: "Secret tok = []" by (simp add: fresh_token_def)
  obtain c e where g: "GenerateCode (totp_GenerateCodeCustom E) (unicode_ToUpper E) t next tok = (tok\<lparr>Code := c\<rparr>, e)"
    and ce: "(c, e) = totp_GenerateCodeCustom E []
        (if next then t + wrap_int64 (Period tok * time_Second) else t)
        \<lparr>opts_Period = (if Period tok = 0 then 30 else uint_of_int (Period tok)), opts_Skew = 1,
          opts_Digits = (if Digits tok = 0 then 6 else Digits tok), opts_Algorithm = AlgorithmSHA1\<rparr>"
    by (simp add: GenerateCode_unfold s pad8_def ToUpper_Nil Let_def prod_eq_iff)
  from eng ce have "e \<noteq> None \<or> c = []"
    by (metis fst_conv snd_conv)
  with rd Some g show ?thesis
    by (cases e) (auto simp: produced_def fetch_body_def fresh_token_def)
qed

end
